theory Spec2Isabelle
  imports Main
begin

section \<open>Python values used by shellsherpa.py\<close>

text \<open>
  A Python \<open>str\<close> is modelled as a \<^typ>\<open>string\<close>; a \<^typ>\<open>char\<close> stands for the code point
  with the same number (0 to 255).  Exceptions are values of \<open>py_error\<close>.
\<close>

datatype py_error = IndexError | ValueError | RuntimeError | UnicodeDecodeError

text \<open>
  \<open>str.split()\<close> without a separator splits at runs of characters for which
  \<open>str.isspace\<close> holds.  In the range 0 to 255 these are TAB to CR, FS to US, the blank,
  NEL (0x85) and the no-break space (0xA0).
\<close>

definition isspace :: "char \<Rightarrow> bool" where
  "isspace c =
     (let n = (of_char c :: nat)
      in (9 \<le> n \<and> n \<le> 13) \<or> (28 \<le> n \<and> n \<le> 32) \<or> n = 133 \<or> n = 160)"

text \<open>
  The scanner of \<open>str.split()\<close>: \<open>tok\<close> is the token read so far, closed by the next
  whitespace character or by the end of the text; empty tokens are not emitted.
\<close>

fun split_scan :: "string \<Rightarrow> string \<Rightarrow> string list" where
  "split_scan tok [] = (if tok = [] then [] else [tok])"
| "split_scan tok (c # cs) =
     (if isspace c
      then (if tok = [] then split_scan [] cs else tok # split_scan [] cs)
      else split_scan (tok @ [c]) cs)"

definition py_split :: "string \<Rightarrow> string list" where
  "py_split s = split_scan [] s"

text \<open>\<open>s.strip(chars)\<close>: drop the leading and the trailing characters that occur in \<open>chars\<close>.\<close>

definition py_strip :: "string \<Rightarrow> string \<Rightarrow> string" where
  "py_strip chars s =
     rev (dropWhile (\<lambda>c. c \<in> set chars) (rev (dropWhile (\<lambda>c. c \<in> set chars) s)))"

subsection \<open>The clock and \<open>generate_timestamp\<close>\<close>

text \<open>
  \<open>datetime.datetime.now()\<close> is an input of the model: a record of the six fields that
  the format \<open>%Y%m%d%H%M%S\<close> reads.
\<close>

record datetime =
  year :: nat
  month :: nat
  day :: nat
  hour :: nat
  minute :: nat
  second :: nat

definition digit :: "nat \<Rightarrow> char" where
  "digit n = char_of (48 + n)"

fun dec :: "nat \<Rightarrow> string" where
  "dec n = (if n < 10 then [digit n] else dec (n div 10) @ [digit (n mod 10)])"

definition zfill :: "nat \<Rightarrow> string \<Rightarrow> string" where
  "zfill w s = replicate (w - length s) (CHR ''0'') @ s"

text \<open>
  \<open>%m\<close>, \<open>%d\<close>, \<open>%H\<close>, \<open>%M\<close> and \<open>%S\<close> are decimal numbers padded with zeros to two
  places.  \<open>%Y\<close> is the year as the C library prints it, a decimal number without padding.
\<close>

definition generate_timestamp :: "datetime \<Rightarrow> string" where
  "generate_timestamp now =
     dec (year now) @ zfill 2 (dec (month now)) @ zfill 2 (dec (day now)) @
     zfill 2 (dec (hour now)) @ zfill 2 (dec (minute now)) @ zfill 2 (dec (second now))"

text \<open>The values \<open>datetime.now()\<close> can have on a clock that shows a four-digit year.\<close>

definition clock_reading :: "datetime \<Rightarrow> bool" where
  "clock_reading t =
     (1000 \<le> year t \<and> year t \<le> 9999 \<and> 1 \<le> month t \<and> month t \<le> 12 \<and>
      1 \<le> day t \<and> day t \<le> 31 \<and> hour t < 24 \<and> minute t < 60 \<and> second t < 60)"

text \<open>Reading a decimal numeral back, to say which number a run of digits shows.\<close>

definition isdigit :: "char \<Rightarrow> bool" where
  "isdigit c = (48 \<le> (of_char c :: nat) \<and> (of_char c :: nat) \<le> 57)"

definition undec :: "string \<Rightarrow> nat" where
  "undec s = foldl (\<lambda>a c. 10 * a + ((of_char c :: nat) - 48)) 0 s"

subsection \<open>class \<open>Message\<close>\<close>

record message =
  command :: string
  timestamp :: string
  results :: "string option"
  job_name :: string

text \<open>
  \<open>Message.__init__(command, job_name = None)\<close>.  The test \<open>if job_name:\<close> fails for
  \<open>None\<close> and for the empty string; then the job name is \<open>command.split()[0]\<close>, which
  raises \<open>IndexError\<close> when the split has no token.
\<close>

definition Message_init :: "datetime \<Rightarrow> string \<Rightarrow> string option \<Rightarrow> py_error + message" where
  "Message_init now cmd job =
     (let ts = generate_timestamp now
      in case job of
           Some (j # js) \<Rightarrow>
             Inr \<lparr>command = cmd, timestamp = ts, results = None, job_name = j # js\<rparr>
         | _ \<Rightarrow>
             (case py_split cmd of
                [] \<Rightarrow> Inl IndexError
              | t # _ \<Rightarrow> Inr \<lparr>command = cmd, timestamp = ts, results = None, job_name = t\<rparr>))"

definition get_fullname :: "message \<Rightarrow> string" where
  "get_fullname m = job_name m @ ''.'' @ timestamp m"

subsection \<open>class \<open>Client\<close>\<close>

text \<open>
  Objects are held by reference.  A \<open>Message\<close> reference is the position of the object
  in the store of all \<open>Message\<close> objects, a \<open>Client\<close> reference the position in the store
  of all \<open>Client\<close> objects; a new object is appended to its store.  \<open>queue.Queue\<close> is a
  FIFO of references: \<open>put\<close> appends, \<open>get\<close> takes the head.
\<close>

type_synonym mref = nat
type_synonym cref = nat

record client =
  keep_alive :: bool
  uuid :: string
  addr :: string
  send_queue :: "mref list"
  tags :: "string list"

definition shutdown :: "client \<Rightarrow> client" where
  "shutdown c = c\<lparr>keep_alive := False\<rparr>"

definition add_tag :: "client \<Rightarrow> string \<Rightarrow> client" where
  "add_tag c tag = (if tag \<notin> set (tags c) then c\<lparr>tags := tags c @ [tag]\<rparr> else c)"

text \<open>\<open>list.remove\<close> deletes the first occurrence, as \<^const>\<open>remove1\<close> does.\<close>

definition remove_tag :: "client \<Rightarrow> string \<Rightarrow> client" where
  "remove_tag c tag =
     (if tag \<in> set (tags c) \<and> tag \<noteq> uuid c \<and> tag \<noteq> addr c
      then c\<lparr>tags := remove1 tag (tags c)\<rparr> else c)"

definition send :: "client \<Rightarrow> mref \<Rightarrow> client" where
  "send c m = c\<lparr>send_queue := send_queue c @ [m]\<rparr>"

text \<open>
  The first loop of \<open>Client.__init__\<close>:
  \<open>for tag in self.tags: commands_to_run += autoruns.get(tag, [])\<close>.
\<close>

definition autoruns_get :: "(string \<rightharpoonup> string list) \<Rightarrow> string \<Rightarrow> string list" where
  "autoruns_get autoruns tag = (case autoruns tag of None \<Rightarrow> [] | Some cmds \<Rightarrow> cmds)"

definition commands_to_run :: "(string \<rightharpoonup> string list) \<Rightarrow> string list \<Rightarrow> string list" where
  "commands_to_run autoruns ts = foldl (\<lambda>acc tag. acc @ autoruns_get autoruns tag) [] ts"

text \<open>
  The second loop: \<open>for cmd in commands_to_run: self.send(Message(cmd))\<close>.  The \<open>k\<close>-th
  \<open>Message\<close> reads the clock \<open>clock k\<close>.  An exception of \<open>Message\<close> leaves the loop and
  the constructor.
\<close>

fun send_autoruns ::
  "(nat \<Rightarrow> datetime) \<Rightarrow> nat \<Rightarrow> string list \<Rightarrow> client \<times> message list \<Rightarrow>
   py_error + client \<times> message list" where
  "send_autoruns clock k [] (c, ms) = Inr (c, ms)"
| "send_autoruns clock k (cmd # cmds) (c, ms) =
     (case Message_init (clock k) cmd None of
        Inl e \<Rightarrow> Inl e
      | Inr m \<Rightarrow> send_autoruns clock (Suc k) cmds (send c (length ms), ms @ [m]))"

text \<open>
  \<open>Client.__init__(addr)\<close>.  The globals \<open>default_tag\<close> and \<open>autoruns\<close>, the value \<open>uid\<close>
  that \<open>generate_uuid()\<close> returns, the clock and the store of \<open>Message\<close> objects are
  parameters.  The result is the new object and the store with its autorun messages, or
  the exception.
\<close>

definition Client_init ::
  "string option \<Rightarrow> (string \<rightharpoonup> string list) \<Rightarrow> string \<Rightarrow> (nat \<Rightarrow> datetime) \<Rightarrow>
   message list \<Rightarrow> string \<Rightarrow> py_error + client \<times> message list" where
  "Client_init default_tag autoruns uid clock ms a =
     (let c0 = \<lparr>keep_alive = True, uuid = uid, addr = a, send_queue = [], tags = [uid, a]\<rparr>;
          c1 = (case default_tag of None \<Rightarrow> c0 | Some t \<Rightarrow> c0\<lparr>tags := tags c0 @ [t]\<rparr>)
      in send_autoruns clock 0 (commands_to_run autoruns (tags c1)) (c1, ms))"

text \<open>Calls of \<open>add_tag\<close> and \<open>remove_tag\<close> on one session, in sequence.\<close>

datatype tag_call = AddTag string | RemoveTag string

fun do_tag_call :: "client \<Rightarrow> tag_call \<Rightarrow> client" where
  "do_tag_call c (AddTag t) = add_tag c t"
| "do_tag_call c (RemoveTag t) = remove_tag c t"

definition tag_calls :: "client \<Rightarrow> tag_call list \<Rightarrow> client" where
  "tag_calls c calls = foldl do_tag_call c calls"

text \<open>The command texts waiting in a queue, first to be sent first.\<close>

definition queued_commands :: "message list \<Rightarrow> client \<Rightarrow> string list" where
  "queued_commands ms c = map (\<lambda>m. command (ms ! m)) (send_queue c)"

subsection \<open>class \<open>ClientPool\<close>\<close>

text \<open>
  The state that the pool's methods read and write: both object stores, the list
  \<open>self.clients\<close> of references and the state of \<open>self.clients_lock\<close> (\<open>True\<close>: held).
\<close>

record world =
  messages :: "message list"
  objects :: "client list"
  clients :: "cref list"
  clients_lock :: bool

text \<open>
  A call returns a value, raises, or blocks: \<open>threading.Lock.acquire()\<close> on a lock that
  is held waits until the lock is released, and no step of the caller releases it.
\<close>

datatype 'a outcome = Returned 'a | Raised py_error | Blocked

definition add_client :: "world \<Rightarrow> cref \<Rightarrow> unit outcome \<times> world" where
  "add_client w c =
     (if clients_lock w then (Blocked, w)
      else let w1 = w\<lparr>clients_lock := True\<rparr>;
               w2 = w1\<lparr>clients := clients w1 @ [c]\<rparr>
           in (Returned (), w2\<lparr>clients_lock := False\<rparr>))"

text \<open>
  \<open>remove_client\<close>: \<open>list.remove\<close> raises \<open>ValueError\<close> when the element is not in the
  list, and then the statement that releases the lock is not reached.
\<close>

definition remove_client :: "world \<Rightarrow> cref \<Rightarrow> unit outcome \<times> world" where
  "remove_client w c =
     (if clients_lock w then (Blocked, w)
      else let w1 = w\<lparr>clients_lock := True\<rparr>;
               w2 = w1\<lparr>objects := (objects w1)[c := shutdown (objects w1 ! c)]\<rparr>
           in if c \<in> set (clients w2)
              then (Returned (), w2\<lparr>clients := remove1 c (clients w2), clients_lock := False\<rparr>)
              else (Raised ValueError, w2))"

definition count_tag :: "(string \<rightharpoonup> nat) \<Rightarrow> string \<Rightarrow> (string \<rightharpoonup> nat)" where
  "count_tag d ctag = (case d ctag of Some n \<Rightarrow> d(ctag \<mapsto> n + 1) | None \<Rightarrow> d(ctag \<mapsto> 1))"

definition get_tags :: "world \<Rightarrow> (string \<rightharpoonup> nat) outcome \<times> world" where
  "get_tags w =
     (Returned (foldl (\<lambda>d c. foldl count_tag d (tags (objects w ! c))) Map.empty (clients w)), w)"

text \<open>
  \<open>find_clients_by_tag\<close> returns the list \<open>self.clients\<close> itself for the tag \<open>*\<close>, and a
  new list otherwise.  The characters stripped from the tag are the two quotes.
\<close>

datatype found = The_pool_list | New_list "cref list"

definition quote_chars :: string where
  "quote_chars = [CHR 0x22, CHR 0x27]"

definition find_clients_by_tag :: "world \<Rightarrow> string \<Rightarrow> found" where
  "find_clients_by_tag w tag =
     (let tag' = py_strip quote_chars tag
      in if tag' = ''*'' then The_pool_list
         else New_list (filter (\<lambda>c. tag' \<in> set (tags (objects w ! c))) (clients w)))"

text \<open>The elements of a found list in a state.\<close>

definition found_list :: "world \<Rightarrow> found \<Rightarrow> cref list" where
  "found_list w f = (case f of The_pool_list \<Rightarrow> clients w | New_list cs \<Rightarrow> cs)"

text \<open>
  \<open>for c in found: self.remove_client(c)\<close>.  The iterator of a Python list keeps an
  index \<open>i\<close>: it yields element \<open>i\<close> of the list as the list is at that moment and stops
  when \<open>i\<close> is not below the length.  An exception, or a call that blocks, ends the loop.
\<close>

function remove_loop :: "found \<Rightarrow> nat \<Rightarrow> world \<Rightarrow> unit outcome \<times> world" where
  "remove_loop f i w =
     (if i < length (found_list w f)
      then (case fst (remove_client w (found_list w f ! i)) of
              Returned u \<Rightarrow> remove_loop f (Suc i) (snd (remove_client w (found_list w f ! i)))
            | Raised e \<Rightarrow> remove_client w (found_list w f ! i)
            | Blocked \<Rightarrow> remove_client w (found_list w f ! i))
      else (Returned (), w))"
  by pat_completeness auto
termination
proof (relation "measure (\<lambda>(f, i, w). length (found_list w f) - i)")
  show "wf (measure (\<lambda>(f, i, w). length (found_list w f) - i))"
    by simp
next
  fix f :: found and i :: nat and w :: world and u :: unit
  assume lt: "i < length (found_list w f)"
  define w' where "w' = snd (remove_client w (found_list w f ! i))"
  have "length (clients w') \<le> length (clients w)"
    unfolding w'_def by (simp add: remove_client_def Let_def length_remove1)
  then have le: "length (found_list w' f) \<le> length (found_list w f)"
    by (cases f) (simp_all add: found_list_def)
  have "length (found_list w' f) - Suc i < length (found_list w f) - i"
    using lt le by linarith
  then show "((f, Suc i, snd (remove_client w (found_list w f ! i))), (f, i, w))
      \<in> measure (\<lambda>(f, i, w). length (found_list w f) - i)"
    unfolding w'_def by simp
qed

definition remove_clients_by_tag :: "world \<Rightarrow> string \<Rightarrow> unit outcome \<times> world" where
  "remove_clients_by_tag w tag = remove_loop (find_clients_by_tag w tag) 0 w"

text \<open>
  \<open>for c in found: c.send(message)\<close>.  The body does not change \<open>self.clients\<close>, so the
  loop visits the elements the found list has when the loop starts.
\<close>

definition send_to :: "mref \<Rightarrow> world \<Rightarrow> cref \<Rightarrow> world" where
  "send_to m w c = w\<lparr>objects := (objects w)[c := send (objects w ! c) m]\<rparr>"

definition send_message_by_tag :: "world \<Rightarrow> string \<Rightarrow> mref \<Rightarrow> unit outcome \<times> world" where
  "send_message_by_tag w tag m =
     (Returned (), foldl (send_to m) w (found_list w (find_clients_by_tag w tag)))"

subsection \<open>One round of \<open>tcp_handler\<close>\<close>




subsection \<open>The pool methods step by step\<close>

text \<open>
  To say when the lock is held, the bodies of the pool methods are also given as
  sequences of statements that a thread runs one at a time, each statement in one step.
  \<open>Acquire\<close> and \<open>Release\<close> are the calls on \<open>self.clients_lock\<close>; \<open>Shutdown\<close> is
  \<open>client.shutdown()\<close>; \<open>List_append\<close> and \<open>List_remove\<close> are the calls on
  \<open>self.clients\<close>; \<open>Put\<close> is \<open>c.send(message)\<close>.
\<close>

datatype action =
    Acquire | Release | Shutdown cref | List_append cref | List_remove cref | Put cref mref

text \<open>
  What a thread has still to do is a list of frames: a statement, a call of
  \<open>find_clients_by_tag\<close> whose result the caller keeps, the scan of \<open>get_tags\<close>, or
  one of the two \<open>for\<close> loops over a found list, before the call of
  \<open>find_clients_by_tag\<close> or at the index the iterator has reached.
\<close>

datatype frame =
    Act action
  | Find string
  | Count_tags
  | Find_then_send string mref
  | Send_next found nat mref
  | Find_then_remove string
  | Remove_next found nat

record thread =
  todo :: "frame list"
  seen :: "cref list"

definition add_client_body :: "cref \<Rightarrow> frame list" where
  "add_client_body c = [Act Acquire, Act (List_append c), Act Release]"

definition remove_client_body :: "cref \<Rightarrow> frame list" where
  "remove_client_body c = [Act Acquire, Act (Shutdown c), Act (List_remove c), Act Release]"

definition find_clients_by_tag_body :: "string \<Rightarrow> frame list" where
  "find_clients_by_tag_body tag = [Find tag]"

definition get_tags_body :: "frame list" where
  "get_tags_body = [Count_tags]"

definition send_message_by_tag_body :: "string \<Rightarrow> mref \<Rightarrow> frame list" where
  "send_message_by_tag_body tag m = [Find_then_send tag m]"

definition remove_clients_by_tag_body :: "string \<Rightarrow> frame list" where
  "remove_clients_by_tag_body tag = [Find_then_remove tag]"

text \<open>
  One step of a thread: it moves on, it waits (\<open>acquire\<close> on a held lock), it has
  nothing left to do, or it raises.  \<open>release\<close> on a lock that is not held raises
  \<open>RuntimeError\<close>.  The dictionary that \<open>get_tags\<close> builds is local to the caller and is
  not kept here.
\<close>

datatype status = Stepped world thread | Waiting | Finished | Raising py_error world

fun do_frame :: "frame \<Rightarrow> frame list \<Rightarrow> cref list \<Rightarrow> world \<Rightarrow> status" where
  "do_frame (Act Acquire) k s w =
     (if clients_lock w then Waiting
      else Stepped (w\<lparr>clients_lock := True\<rparr>) \<lparr>todo = k, seen = s\<rparr>)"
| "do_frame (Act Release) k s w =
     (if clients_lock w then Stepped (w\<lparr>clients_lock := False\<rparr>) \<lparr>todo = k, seen = s\<rparr>
      else Raising RuntimeError w)"
| "do_frame (Act (Shutdown c)) k s w =
     Stepped (w\<lparr>objects := (objects w)[c := shutdown (objects w ! c)]\<rparr>) \<lparr>todo = k, seen = s\<rparr>"
| "do_frame (Act (List_append c)) k s w =
     Stepped (w\<lparr>clients := clients w @ [c]\<rparr>) \<lparr>todo = k, seen = s\<rparr>"
| "do_frame (Act (List_remove c)) k s w =
     (if c \<in> set (clients w)
      then Stepped (w\<lparr>clients := remove1 c (clients w)\<rparr>) \<lparr>todo = k, seen = s\<rparr>
      else Raising ValueError w)"
| "do_frame (Act (Put c m)) k s w = Stepped (send_to m w c) \<lparr>todo = k, seen = s\<rparr>"
| "do_frame (Find tag) k s w =
     Stepped w \<lparr>todo = k, seen = found_list w (find_clients_by_tag w tag)\<rparr>"
| "do_frame Count_tags k s w = Stepped w \<lparr>todo = k, seen = s\<rparr>"
| "do_frame (Find_then_send tag m) k s w =
     Stepped w \<lparr>todo = Send_next (find_clients_by_tag w tag) 0 m # k, seen = s\<rparr>"
| "do_frame (Send_next f i m) k s w =
     (if i < length (found_list w f)
      then Stepped w \<lparr>todo = Act (Put (found_list w f ! i) m) # Send_next f (Suc i) m # k,
                      seen = s\<rparr>
      else Stepped w \<lparr>todo = k, seen = s\<rparr>)"
| "do_frame (Find_then_remove tag) k s w =
     Stepped w \<lparr>todo = Remove_next (find_clients_by_tag w tag) 0 # k, seen = s\<rparr>"
| "do_frame (Remove_next f i) k s w =
     (if i < length (found_list w f)
      then Stepped w \<lparr>todo = remove_client_body (found_list w f ! i) @ Remove_next f (Suc i) # k,
                      seen = s\<rparr>
      else Stepped w \<lparr>todo = k, seen = s\<rparr>)"

definition tstep :: "world \<Rightarrow> thread \<Rightarrow> status" where
  "tstep w t = (case todo t of [] \<Rightarrow> Finished | f # k \<Rightarrow> do_frame f k (seen t) w)"

text \<open>
  Threads that share the pool.  A schedule names the thread that takes the next step;
  a thread that waits or has finished cannot be the next, and a thread that raises is
  over, with the state as the exception left it.
\<close>

definition sched_step :: "nat \<Rightarrow> world \<times> thread list \<Rightarrow> (world \<times> thread list) option" where
  "sched_step i s =
     (if i < length (snd s)
      then (case tstep (fst s) (snd s ! i) of
              Stepped w' t' \<Rightarrow> Some (w', (snd s)[i := t'])
            | Raising e w' \<Rightarrow> Some (w', (snd s)[i := (snd s ! i)\<lparr>todo := []\<rparr>])
            | Waiting \<Rightarrow> None
            | Finished \<Rightarrow> None)
      else None)"

fun run :: "nat list \<Rightarrow> world \<times> thread list \<Rightarrow> (world \<times> thread list) option" where
  "run [] s = Some s"
| "run (i # sched) s = (case sched_step i s of None \<Rightarrow> None | Some s' \<Rightarrow> run sched s')"

text \<open>
  \<open>lock_ok h k\<close>: the frames \<open>k\<close> take and give back the lock in turn, starting from a
  thread that has the lock (\<open>h\<close>) or has not.  A thread is \<open>inside\<close> when it has taken
  the lock and not yet given it back.
\<close>

fun lock_ok :: "bool \<Rightarrow> frame list \<Rightarrow> bool" where
  "lock_ok h [] = (\<not> h)"
| "lock_ok h (Act Acquire # k) = (\<not> h \<and> lock_ok True k)"
| "lock_ok h (Act Release # k) = (h \<and> lock_ok False k)"
| "lock_ok h (Act (Shutdown c) # k) = lock_ok h k"
| "lock_ok h (Act (List_append c) # k) = lock_ok h k"
| "lock_ok h (Act (List_remove c) # k) = lock_ok h k"
| "lock_ok h (Act (Put c m) # k) = lock_ok h k"
| "lock_ok h (Find tag # k) = lock_ok h k"
| "lock_ok h (Count_tags # k) = lock_ok h k"
| "lock_ok h (Find_then_send tag m # k) = lock_ok h k"
| "lock_ok h (Send_next f i m # k) = lock_ok h k"
| "lock_ok h (Find_then_remove tag # k) = (\<not> h \<and> lock_ok False k)"
| "lock_ok h (Remove_next f i # k) = (\<not> h \<and> lock_ok False k)"

definition inside :: "thread \<Rightarrow> bool" where
  "inside t = lock_ok True (todo t)"

text \<open>
  The discipline of the lock for a pool and its threads: the lock is held whenever a
  thread is inside, at most one thread is inside, and every thread takes and gives back
  the lock in turn.
\<close>

definition lock_discipline :: "world \<times> thread list \<Rightarrow> bool" where
  "lock_discipline s =
     ((\<forall>i<length (snd s). inside (snd s ! i) \<longrightarrow> clients_lock (fst s)) \<and>
      (\<forall>i<length (snd s). \<forall>j<length (snd s).
         inside (snd s ! i) \<and> inside (snd s ! j) \<longrightarrow> i = j) \<and>
      (\<forall>i<length (snd s). lock_ok True (todo (snd s ! i)) \<or> lock_ok False (todo (snd s ! i))))"

subsection \<open>Inputs for the examples\<close>

text \<open>A clock reading, and a clock that shows it at every reading.\<close>

definition a_moment :: datetime where
  "a_moment = \<lparr>year = 2024, month = 3, day = 9, hour = 7, minute = 5, second = 0\<rparr>"

definition still_clock :: "nat \<Rightarrow> datetime" where
  "still_clock k = a_moment"

text \<open>
  Three sessions in the pool, the first two tagged \<open>web\<close>, and one \<open>Message\<close> object
  that is in no queue yet.
\<close>

definition session_a :: client where
  "session_a = \<lparr>keep_alive = True, uuid = ''abc12345'', addr = ''10.0.0.5'', send_queue = [],
                 tags = [''abc12345'', ''10.0.0.5'', ''web'']\<rparr>"

definition session_b :: client where
  "session_b = \<lparr>keep_alive = True, uuid = ''def67890'', addr = ''10.0.0.6'', send_queue = [],
                 tags = [''def67890'', ''10.0.0.6'', ''web'']\<rparr>"

definition session_c :: client where
  "session_c = \<lparr>keep_alive = True, uuid = ''ghi24680'', addr = ''10.0.0.7'', send_queue = [],
                 tags = [''ghi24680'', ''10.0.0.7'']\<rparr>"

definition echo_hi :: message where
  "echo_hi = \<lparr>command = ''echo hi'', timestamp = ''20240309070500'', results = None,
               job_name = ''echo''\<rparr>"

definition world_abc :: world where
  "world_abc = \<lparr>messages = [echo_hi], objects = [session_a, session_b, session_c],
                 clients = [0, 1, 2], clients_lock = False\<rparr>"

text \<open>The tag \<open>web\<close> as the operator's shell passes it when it is typed in double quotes.\<close>

definition quoted_web :: string where
  "quoted_web = CHR 0x22 # ''web'' @ [CHR 0x22]"

text \<open>The same pool while another caller holds the lock.\<close>

definition world_abc_locked :: world where
  "world_abc_locked = world_abc\<lparr>clients_lock := True\<rparr>"

text \<open>
  Two callers: one is about to run \<open>remove_client\<close> for the first session, the other
  \<open>find_clients_by_tag\<close> for the wildcard.  And one caller about to run
  \<open>send_message_by_tag\<close>.
\<close>

definition remover_and_finder :: "thread list" where
  "remover_and_finder =
     [\<lparr>todo = remove_client_body 0, seen = []\<rparr>,
      \<lparr>todo = find_clients_by_tag_body ''*'', seen = []\<rparr>]"

definition sender :: "thread list" where
  "sender = [\<lparr>todo = send_message_by_tag_body ''web'' 0, seen = []\<rparr>]"

section \<open>Splitting and timestamps\<close>

lemma split_scan_tok:
  "tok \<noteq> [] \<Longrightarrow>
   split_scan tok s =
     (tok @ takeWhile (\<lambda>c. \<not> isspace c) s) # split_scan [] (dropWhile (\<lambda>c. \<not> isspace c) s)"
  by (induction s arbitrary: tok) auto

lemma split_scan_Nil:
  "split_scan [] s =
     (case dropWhile isspace s of
        [] \<Rightarrow> []
      | c # cs \<Rightarrow>
          takeWhile (\<lambda>c. \<not> isspace c) (c # cs) #
          split_scan [] (dropWhile (\<lambda>c. \<not> isspace c) cs))"
  by (induction s) (auto simp: split_scan_tok split: list.splits)

lemma py_split_empty_iff: "py_split s = [] \<longleftrightarrow> (\<forall>c\<in>set s. isspace c)"
proof
  assume "py_split s = []"
  then have "dropWhile isspace s = []"
    unfolding py_split_def split_scan_Nil[of s] by (simp split: list.splits)
  then show "\<forall>c\<in>set s. isspace c"
    by (simp add: dropWhile_eq_Nil_conv)
next
  assume "\<forall>c\<in>set s. isspace c"
  then have d: "dropWhile isspace s = []"
    by (simp add: dropWhile_eq_Nil_conv)
  show "py_split s = []"
    unfolding py_split_def split_scan_Nil[of s] d by simp
qed

lemma py_split_hd:
  "py_split s = t # ts \<Longrightarrow> t = takeWhile (\<lambda>c. \<not> isspace c) (dropWhile isspace s)"
  unfolding py_split_def split_scan_Nil[of s]
  by (auto split: list.splits dest: hd_dropWhile)

lemma of_char_digit: "d < 10 \<Longrightarrow> (of_char (digit d) :: nat) = 48 + d"
  by (simp add: digit_def)

lemma isdigit_digit: "d < 10 \<Longrightarrow> isdigit (digit d)"
  by (simp add: isdigit_def of_char_digit)

lemma dec_lt10: "n < 10 \<Longrightarrow> dec n = [digit n]"
  by simp

lemma dec_lt100: "10 \<le> n \<Longrightarrow> n < 100 \<Longrightarrow> dec n = [digit (n div 10), digit (n mod 10)]"
  by (subst dec.simps) (simp add: dec_lt10)

lemma dec_lt1000:
  "100 \<le> n \<Longrightarrow> n < 1000 \<Longrightarrow>
   dec n = [digit (n div 100), digit (n div 10 mod 10), digit (n mod 10)]"
  by (subst dec.simps) (simp add: dec_lt100 div_mult2_eq[symmetric] del: dec.simps)

lemma dec_lt10000:
  "1000 \<le> n \<Longrightarrow> n < 10000 \<Longrightarrow>
   dec n = [digit (n div 1000), digit (n div 100 mod 10), digit (n div 10 mod 10),
            digit (n mod 10)]"
  by (subst dec.simps) (simp add: dec_lt1000 div_mult2_eq[symmetric] del: dec.simps)

lemma zfill2_dec: "n < 100 \<Longrightarrow> zfill 2 (dec n) = [digit (n div 10), digit (n mod 10)]"
proof (cases "n < 10")
  case True
  have "char_of (48::nat) = CHR ''0''" by code_simp
  with True show ?thesis by (simp add: zfill_def digit_def del: dec.simps add: dec_lt10)
next
  case False
  assume "n < 100"
  with False show ?thesis by (simp add: zfill_def dec_lt100 del: dec.simps)
qed

lemma undec_snoc: "undec (s @ [c]) = 10 * undec s + ((of_char c :: nat) - 48)"
  by (simp add: undec_def)

lemma undec_dec: "undec (dec n) = n"
proof (induction n rule: dec.induct)
  case (1 n)
  show ?case
  proof (cases "n < 10")
    case True
    then show ?thesis by (simp add: undec_def of_char_digit)
  next
    case False
    then have "dec n = dec (n div 10) @ [digit (n mod 10)]" by (subst dec.simps) simp
    then show ?thesis using 1[OF False] by (simp add: undec_snoc of_char_digit del: dec.simps)
  qed
qed

lemma undec_zeros: "undec (replicate k (CHR ''0'') @ s) = undec s"
proof -
  have "foldl (\<lambda>a c. 10 * a + ((of_char c :: nat) - 48)) 0 (replicate k (CHR ''0'')) = 0"
    by (induction k) simp_all
  then show ?thesis by (simp add: undec_def)
qed

lemma undec_zfill_dec: "undec (zfill w (dec n)) = n"
  unfolding zfill_def by (simp only: undec_zeros undec_dec)

lemma timestamp_shape:
  assumes "clock_reading t"
  shows "length (generate_timestamp t) = 14"
    and "\<forall>c\<in>set (generate_timestamp t). isdigit c"
    and "undec (take 4 (generate_timestamp t)) = year t"
    and "undec (take 2 (drop 4 (generate_timestamp t))) = month t"
    and "undec (take 2 (drop 6 (generate_timestamp t))) = day t"
    and "undec (take 2 (drop 8 (generate_timestamp t))) = hour t"
    and "undec (take 2 (drop 10 (generate_timestamp t))) = minute t"
    and "undec (take 2 (drop 12 (generate_timestamp t))) = second t"
proof -
  have b: "1000 \<le> year t" "year t < 10000" "month t < 100" "day t < 100" "hour t < 100"
    "minute t < 100" "second t < 100"
    using assms by (simp_all add: clock_reading_def)
  have ly: "length (dec (year t)) = 4"
    by (simp only: dec_lt10000[OF b(1,2)]) simp
  have l2: "\<And>n. n < 100 \<Longrightarrow> length (zfill 2 (dec n)) = 2"
    by (simp only: zfill2_dec) simp
  note l = ly l2[OF b(3)] l2[OF b(4)] l2[OF b(5)] l2[OF b(6)] l2[OF b(7)]
  show "length (generate_timestamp t) = 14"
    unfolding generate_timestamp_def length_append l by simp
  have d2: "\<And>n. n < 100 \<Longrightarrow> \<forall>c\<in>set (zfill 2 (dec n)). isdigit c"
    by (simp only: zfill2_dec) (simp add: isdigit_digit)
  have "year t div 1000 < 10" using b(2) by simp
  then have dy: "\<forall>c\<in>set (dec (year t)). isdigit c"
    by (simp only: dec_lt10000[OF b(1,2)]) (simp add: isdigit_digit)
  show "\<forall>c\<in>set (generate_timestamp t). isdigit c"
    unfolding generate_timestamp_def set_append
    using dy d2[OF b(3)] d2[OF b(4)] d2[OF b(5)] d2[OF b(6)] d2[OF b(7)] by blast
  show "undec (take 4 (generate_timestamp t)) = year t"
    unfolding generate_timestamp_def using l by (simp add: undec_dec del: dec.simps)
  show "undec (take 2 (drop 4 (generate_timestamp t))) = month t"
    unfolding generate_timestamp_def using l by (simp add: undec_zfill_dec del: dec.simps)
  show "undec (take 2 (drop 6 (generate_timestamp t))) = day t"
    unfolding generate_timestamp_def using l by (simp add: undec_zfill_dec del: dec.simps)
  show "undec (take 2 (drop 8 (generate_timestamp t))) = hour t"
    unfolding generate_timestamp_def using l by (simp add: undec_zfill_dec del: dec.simps)
  show "undec (take 2 (drop 10 (generate_timestamp t))) = minute t"
    unfolding generate_timestamp_def using l by (simp add: undec_zfill_dec del: dec.simps)
  show "undec (take 2 (drop 12 (generate_timestamp t))) = second t"
    unfolding generate_timestamp_def using l by (simp add: undec_zfill_dec del: dec.simps)
qed

lemma Message_init_fields:
  assumes "Message_init now cmd job = Inr m"
  shows "timestamp m = generate_timestamp now" and "command m = cmd" and "results m = None"
  using assms
  by (auto simp: Message_init_def Let_def split: option.splits list.splits)

lemma Message_init_default_job:
  assumes "Message_init now cmd None = Inr m"
  shows "job_name m = takeWhile (\<lambda>c. \<not> isspace c) (dropWhile isspace cmd)"
proof -
  from assms obtain t ts where s: "py_split cmd = t # ts" and j: "job_name m = t"
    by (auto simp: Message_init_def Let_def split: list.splits)
  from py_split_hd[OF s] j show ?thesis by simp
qed

lemma Message_init_blank:
  assumes "\<forall>c\<in>set cmd. isspace c"
  shows "Message_init now cmd None = Inl IndexError"
    and "Message_init now cmd (Some []) = Inl IndexError"
proof -
  have "py_split cmd = []" using assms by (simp add: py_split_empty_iff)
  then show "Message_init now cmd None = Inl IndexError"
    and "Message_init now cmd (Some []) = Inl IndexError"
    by (simp_all add: Message_init_def)
qed

lemma Message_init_token:
  assumes "\<not> (\<forall>c\<in>set cmd. isspace c)"
  shows "\<exists>m. Message_init now cmd None = Inr m \<and> command m = cmd"
proof -
  have "py_split cmd \<noteq> []" using assms by (simp add: py_split_empty_iff)
  then obtain t ts where "py_split cmd = t # ts" by (cases "py_split cmd") auto
  then show ?thesis by (simp add: Message_init_def)
qed

section \<open>Commands and their full names\<close>

text \<open>
  C8.  A \<open>Message\<close> created at a clock reading \<open>now\<close> has the full name
  \<open>job_name + "." + timestamp\<close>.  Its timestamp has 14 characters, all of them digits,
  which read as the year (4 digits), month, day, hour, minute and second (2 digits each)
  of \<open>now\<close>.  Without a job name argument the job name is the first whitespace-delimited
  token of the command text.  With the job name \<open>echo\<close> the full name is \<open>echo.\<close>
  followed by that timestamp, and a second \<open>Message\<close> created at the same clock reading
  with another job name has another full name.
\<close>

theorem Message_fullname_format:
  assumes "clock_reading now" and "Message_init now cmd job = Inr m"
  shows "get_fullname m = job_name m @ ''.'' @ timestamp m \<and>
         length (timestamp m) = 14 \<and> (\<forall>c\<in>set (timestamp m). isdigit c) \<and>
         undec (take 4 (timestamp m)) = year now \<and>
         undec (take 2 (drop 4 (timestamp m))) = month now \<and>
         undec (take 2 (drop 6 (timestamp m))) = day now \<and>
         undec (take 2 (drop 8 (timestamp m))) = hour now \<and>
         undec (take 2 (drop 10 (timestamp m))) = minute now \<and>
         undec (take 2 (drop 12 (timestamp m))) = second now \<and>
         (job = None \<longrightarrow>
            job_name m = takeWhile (\<lambda>c. \<not> isspace c) (dropWhile isspace cmd)) \<and>
         (job_name m = ''echo'' \<longrightarrow> get_fullname m = ''echo.'' @ timestamp m) \<and>
         (\<forall>cmd' job' m'. Message_init now cmd' job' = Inr m' \<and> job_name m' \<noteq> job_name m \<longrightarrow>
            get_fullname m' \<noteq> get_fullname m)"
proof -
  have ts: "timestamp m = generate_timestamp now"
    using assms(2) by (rule Message_init_fields)
  note sh = timestamp_shape[OF assms(1), folded ts]
  show ?thesis
  proof (intro conjI allI impI)
    show "get_fullname m = job_name m @ ''.'' @ timestamp m"
      by (simp add: get_fullname_def)
    show "length (timestamp m) = 14" by (rule sh(1))
    show "\<forall>c\<in>set (timestamp m). isdigit c" by (rule sh(2))
    show "undec (take 4 (timestamp m)) = year now" by (rule sh(3))
    show "undec (take 2 (drop 4 (timestamp m))) = month now" by (rule sh(4))
    show "undec (take 2 (drop 6 (timestamp m))) = day now" by (rule sh(5))
    show "undec (take 2 (drop 8 (timestamp m))) = hour now" by (rule sh(6))
    show "undec (take 2 (drop 10 (timestamp m))) = minute now" by (rule sh(7))
    show "undec (take 2 (drop 12 (timestamp m))) = second now" by (rule sh(8))
  next
    assume "job = None"
    with assms(2) show "job_name m = takeWhile (\<lambda>c. \<not> isspace c) (dropWhile isspace cmd)"
      by (simp add: Message_init_default_job)
  next
    assume "job_name m = ''echo''"
    then show "get_fullname m = ''echo.'' @ timestamp m"
      by (simp add: get_fullname_def)
  next
    fix cmd' job' m'
    assume a: "Message_init now cmd' job' = Inr m' \<and> job_name m' \<noteq> job_name m"
    then have "Message_init now cmd' job' = Inr m'" by simp
    then have "timestamp m' = generate_timestamp now" by (rule Message_init_fields)
    then have "timestamp m' = timestamp m" by (simp add: ts)
    with a show "get_fullname m' \<noteq> get_fullname m"
      by (simp add: get_fullname_def)
  qed
qed

theorem Message_fullname_format_witness:
  "clock_reading \<lparr>year = 2024, month = 3, day = 9, hour = 7, minute = 5, second = 0\<rparr> \<and>
   Message_init \<lparr>year = 2024, month = 3, day = 9, hour = 7, minute = 5, second = 0\<rparr>
     ''echo hi'' None =
     Inr \<lparr>command = ''echo hi'', timestamp = ''20240309070500'', results = None,
          job_name = ''echo''\<rparr> \<and>
   get_fullname \<lparr>command = ''echo hi'', timestamp = ''20240309070500'', results = None,
          job_name = ''echo''\<rparr> = ''echo.20240309070500'' \<and>
   length ''20240309070500'' = 14"
proof -
  let ?now = "\<lparr>year = 2024, month = 3, day = 9, hour = 7, minute = 5, second = 0\<rparr>"
  let ?m = "\<lparr>command = ''echo hi'', timestamp = ''20240309070500'', results = None,
          job_name = ''echo''\<rparr>"
  have c: "clock_reading ?now" by (simp add: clock_reading_def)
  have i: "Message_init ?now ''echo hi'' None = Inr ?m" by code_simp
  note t = Message_fullname_format[OF c i]
  have "get_fullname ?m = job_name ?m @ ''.'' @ timestamp ?m"
    by (rule t[THEN conjunct1])
  then have f: "get_fullname ?m = ''echo.20240309070500''" by simp
  have "length (timestamp ?m) = 14"
    by (rule t[THEN conjunct2, THEN conjunct1])
  then have l: "length ''20240309070500'' = 14" by simp
  show ?thesis by (intro conjI c i f l)
qed

text \<open>
  C10.  When every character of the command text is whitespace (the empty text
  included) and no job name is given, \<open>Message\<close> raises \<open>IndexError\<close> and no object is
  made.  The empty job name counts as none.
\<close>

theorem Message_blank_command_raises:
  assumes "\<forall>c\<in>set cmd. isspace c"
  shows "Message_init now cmd None = Inl IndexError \<and>
         Message_init now cmd (Some []) = Inl IndexError"
  using Message_init_blank[OF assms] by simp

theorem Message_blank_command_raises_witness:
  "isspace (CHR '' '') \<and>
   Message_init \<lparr>year = 2024, month = 3, day = 9, hour = 7, minute = 5, second = 0\<rparr>
     '' '' None = Inl IndexError \<and>
   Message_init \<lparr>year = 2024, month = 3, day = 9, hour = 7, minute = 5, second = 0\<rparr>
     [] None = Inl IndexError"
proof -
  have s: "isspace (CHR '' '')" by (simp add: isspace_def)
  then have a: "\<forall>c\<in>set '' ''. isspace c" by simp
  have b: "\<forall>c\<in>set ([]::string). isspace c" by simp
  note t = Message_blank_command_raises[OF a, of "\<lparr>year = 2024, month = 3, day = 9, hour = 7, minute = 5, second = 0\<rparr>"]
  note u = Message_blank_command_raises[OF b, of "\<lparr>year = 2024, month = 3, day = 9, hour = 7, minute = 5, second = 0\<rparr>"]
  show ?thesis by (intro conjI s t[THEN conjunct1] u[THEN conjunct1])
qed

section \<open>Sessions: tags and autoruns\<close>

lemma commands_to_run_concat:
  "commands_to_run au ts = concat (map (autoruns_get au) ts)"
proof -
  have "foldl (\<lambda>acc tag. acc @ autoruns_get au tag) acc ts =
        acc @ concat (map (autoruns_get au) ts)" for acc
    by (induction ts arbitrary: acc) simp_all
  then show ?thesis by (simp add: commands_to_run_def)
qed

lemma send_autoruns_keeps:
  "send_autoruns clock k cmds (c, ms) = Inr (c', ms') \<Longrightarrow>
   tags c' = tags c \<and> uuid c' = uuid c \<and> addr c' = addr c \<and> keep_alive c' = keep_alive c"
proof (induction cmds arbitrary: k c ms)
  case Nil
  then show ?case by simp
next
  case (Cons cmd cmds)
  then show ?case
    by (cases "Message_init (clock k) cmd None") (auto simp: send_def dest: Cons.IH)
qed

lemma send_autoruns_blank:
  "cmd \<in> set cmds \<Longrightarrow> \<forall>ch\<in>set cmd. isspace ch \<Longrightarrow>
   send_autoruns clock k cmds (c, ms) = Inl IndexError"
proof (induction cmds arbitrary: k c ms)
  case Nil
  then show ?case by simp
next
  case (Cons x cmds)
  show ?case
  proof (cases "Message_init (clock k) x None")
    case (Inl e)
    have "e = IndexError"
      using Inl by (auto simp: Message_init_def split: list.splits)
    with Inl show ?thesis by simp
  next
    case (Inr m)
    then have "x \<noteq> cmd"
      using Cons.prems(2) Message_init_blank(1)[of cmd "clock k"] by auto
    with Cons.prems have "cmd \<in> set cmds" by simp
    with Inr Cons.IH Cons.prems(2) show ?thesis by simp
  qed
qed

lemma send_autoruns_runs:
  assumes "\<forall>cmd\<in>set cmds. \<not> (\<forall>ch\<in>set cmd. isspace ch)"
  shows "\<exists>c' ms'. send_autoruns clock k cmds (c, ms) = Inr (c', ms') \<and>
           send_queue c' = send_queue c @ [length ms ..< length ms + length cmds] \<and>
           take (length ms) ms' = ms \<and> map command (drop (length ms) ms') = cmds"
  using assms
proof (induction cmds arbitrary: k c ms)
  case Nil
  then show ?case by simp
next
  case (Cons cmd cmds)
  from Cons.prems have "\<not> (\<forall>ch\<in>set cmd. isspace ch)" by simp
  from Message_init_token[OF this, of "clock k"] obtain m
    where m: "Message_init (clock k) cmd None = Inr m" and cm: "command m = cmd" by blast
  from Cons.prems have rest: "\<forall>cmd\<in>set cmds. \<not> (\<forall>ch\<in>set cmd. isspace ch)" by simp
  from Cons.IH[OF rest, of "Suc k" "send c (length ms)" "ms @ [m]"] obtain c' ms'
    where r: "send_autoruns clock (Suc k) cmds (send c (length ms), ms @ [m]) = Inr (c', ms')"
      and q: "send_queue c' =
              send_queue (send c (length ms)) @
              [length (ms @ [m]) ..< length (ms @ [m]) + length cmds]"
      and t: "take (length (ms @ [m])) ms' = ms @ [m]"
      and d: "map command (drop (length (ms @ [m])) ms') = cmds"
    by blast
  have "[length ms ..< length ms + length (cmd # cmds)] =
        length ms # [length (ms @ [m]) ..< length (ms @ [m]) + length cmds]"
    by (simp add: upt_conv_Cons del: upt_Suc)
  then have q': "send_queue c' = send_queue c @ [length ms ..< length ms + length (cmd # cmds)]"
    using q by (simp add: send_def del: upt_Suc)
  have t1: "take (Suc (length ms)) ms' = ms @ [m]" using t by simp
  have t': "take (length ms) ms' = ms"
  proof -
    have "take (length ms) (take (Suc (length ms)) ms') = take (length ms) (ms @ [m])"
      by (simp only: t1)
    then show ?thesis by (simp add: min_def)
  qed
  have len: "length ms < length ms'"
  proof -
    have "length (take (Suc (length ms)) ms') = Suc (length ms)"
      by (simp only: t1) simp
    then show ?thesis by simp
  qed
  have nth: "ms' ! length ms = m"
  proof -
    have "take (Suc (length ms)) ms' ! length ms = (ms @ [m]) ! length ms"
      by (simp only: t1)
    then show ?thesis by simp
  qed
  have "drop (length ms) ms' = ms' ! length ms # drop (Suc (length ms)) ms'"
    using len by (simp add: Cons_nth_drop_Suc)
  then have d': "map command (drop (length ms) ms') = cmd # cmds"
    using d nth cm by simp
  show ?case
    using m r q' t' d' by simp
qed

lemma map_nth_upt_drop: "map (\<lambda>i. xs ! i) [n ..< length xs] = drop n xs"
  by (simp add: list_eq_iff_nth_eq)

lemma Client_init_keeps:
  assumes "Client_init dt au uid clock ms a = Inr (c, ms')"
  shows "uuid c = uid" and "addr c = a"
    and "tags c = [uid, a] @ (case dt of None \<Rightarrow> [] | Some t \<Rightarrow> [t])"
proof -
  let ?c1 = "case dt of
      None \<Rightarrow> \<lparr>keep_alive = True, uuid = uid, addr = a, send_queue = [], tags = [uid, a]\<rparr>
    | Some t \<Rightarrow> \<lparr>keep_alive = True, uuid = uid, addr = a, send_queue = [], tags = [uid, a] @ [t]\<rparr>"
  have "send_autoruns clock 0 (commands_to_run au (tags ?c1)) (?c1, ms) = Inr (c, ms')"
    using assms by (simp add: Client_init_def Let_def split: option.splits)
  from send_autoruns_keeps[OF this]
  show "uuid c = uid" and "addr c = a"
    and "tags c = [uid, a] @ (case dt of None \<Rightarrow> [] | Some t \<Rightarrow> [t])"
    by (simp_all split: option.splits)
qed

lemma add_tag_keeps:
  "uuid (add_tag c t) = uuid c" "addr (add_tag c t) = addr c"
  "set (tags c) \<subseteq> set (tags (add_tag c t))"
  by (auto simp: add_tag_def)

lemma remove_tag_keeps:
  "uuid (remove_tag c t) = uuid c" "addr (remove_tag c t) = addr c"
  "uuid c \<in> set (tags c) \<Longrightarrow> uuid c \<in> set (tags (remove_tag c t))"
  "addr c \<in> set (tags c) \<Longrightarrow> addr c \<in> set (tags (remove_tag c t))"
  by (auto simp: remove_tag_def)

lemma tag_calls_keep:
  assumes "uuid c \<in> set (tags c)" and "addr c \<in> set (tags c)"
  shows "uuid (tag_calls c calls) = uuid c \<and> addr (tag_calls c calls) = addr c \<and>
         uuid c \<in> set (tags (tag_calls c calls)) \<and> addr c \<in> set (tags (tag_calls c calls))"
  using assms unfolding tag_calls_def
proof (induction calls arbitrary: c)
  case Nil
  then show ?case by simp
next
  case (Cons call calls)
  let ?c = "do_tag_call c call"
  have k: "uuid ?c = uuid c" "addr ?c = addr c"
    by (cases call; simp add: add_tag_keeps remove_tag_keeps)+
  have "uuid c \<in> set (tags ?c)" "addr c \<in> set (tags ?c)"
    using Cons.prems add_tag_keeps(3)[of c]
    by (cases call; auto simp: remove_tag_keeps)+
  then have "uuid ?c \<in> set (tags ?c)" "addr ?c \<in> set (tags ?c)"
    by (simp_all add: k)
  from Cons.IH[OF this] show ?case by (simp add: k)
qed

lemma add_tag_distinct: "distinct (tags c) \<Longrightarrow> distinct (tags (add_tag c t))"
  by (simp add: add_tag_def)

lemma add_tag_present: "t \<in> set (tags c) \<Longrightarrow> add_tag c t = c"
  by (simp add: add_tag_def)

text \<open>
  C4.  For a session made by \<open>Client.__init__\<close>, after any finite sequence of
  \<open>add_tag\<close> and \<open>remove_tag\<close> calls the session's id and peer address are unchanged
  and still members of its tags, and \<open>remove_tag\<close> of the id or of the peer address
  changes nothing (there is no error path in \<open>remove_tag\<close>).
\<close>

theorem tags_keep_uuid_and_addr:
  assumes "Client_init dt au uid clock ms a = Inr (c, ms')"
  shows "uuid (tag_calls c calls) = uid \<and> addr (tag_calls c calls) = a \<and>
         uid \<in> set (tags (tag_calls c calls)) \<and> a \<in> set (tags (tag_calls c calls)) \<and>
         remove_tag (tag_calls c calls) uid = tag_calls c calls \<and>
         remove_tag (tag_calls c calls) a = tag_calls c calls"
proof -
  note k = Client_init_keeps[OF assms]
  have "uuid c \<in> set (tags c)" "addr c \<in> set (tags c)"
    by (simp_all add: k)
  from tag_calls_keep[OF this, of calls]
  have r: "uuid (tag_calls c calls) = uid" "addr (tag_calls c calls) = a"
    "uid \<in> set (tags (tag_calls c calls))" "a \<in> set (tags (tag_calls c calls))"
    by (simp_all add: k)
  have "remove_tag (tag_calls c calls) uid = tag_calls c calls"
    "remove_tag (tag_calls c calls) a = tag_calls c calls"
    by (simp_all add: remove_tag_def r)
  with r show ?thesis by simp
qed

theorem tags_keep_uuid_and_addr_witness:
  "Client_init None Map.empty ''abc12345'' still_clock [] ''10.0.0.5'' =
     Inr (\<lparr>keep_alive = True, uuid = ''abc12345'', addr = ''10.0.0.5'', send_queue = [],
           tags = [''abc12345'', ''10.0.0.5'']\<rparr>, []) \<and>
   tags (tag_calls
     \<lparr>keep_alive = True, uuid = ''abc12345'', addr = ''10.0.0.5'', send_queue = [],
       tags = [''abc12345'', ''10.0.0.5'']\<rparr>
     [AddTag ''web'', RemoveTag ''abc12345'', RemoveTag ''10.0.0.5'', RemoveTag ''web'']) =
     [''abc12345'', ''10.0.0.5''] \<and>
   ''abc12345'' \<in> set (tags (tag_calls
     \<lparr>keep_alive = True, uuid = ''abc12345'', addr = ''10.0.0.5'', send_queue = [],
       tags = [''abc12345'', ''10.0.0.5'']\<rparr>
     [AddTag ''web'', RemoveTag ''abc12345'', RemoveTag ''10.0.0.5'', RemoveTag ''web'']))"
proof -
  let ?c = "\<lparr>keep_alive = True, uuid = ''abc12345'', addr = ''10.0.0.5'', send_queue = [],
       tags = [''abc12345'', ''10.0.0.5'']\<rparr>"
  let ?calls = "[AddTag ''web'', RemoveTag ''abc12345'', RemoveTag ''10.0.0.5'', RemoveTag ''web'']"
  have i: "Client_init None Map.empty ''abc12345'' still_clock [] ''10.0.0.5'' = Inr (?c, [])"
    by (simp add: Client_init_def commands_to_run_def autoruns_get_def)
  have e: "tags (tag_calls ?c ?calls) = [''abc12345'', ''10.0.0.5'']"
    by (simp add: tag_calls_def add_tag_def remove_tag_def)
  note t = tags_keep_uuid_and_addr[OF i, of ?calls]
  have m: "''abc12345'' \<in> set (tags (tag_calls ?c ?calls))"
    by (rule t[THEN conjunct2, THEN conjunct2, THEN conjunct1])
  show ?thesis by (intro conjI i e m)
qed

text \<open>
  C6.  \<open>add_tag\<close> keeps the tags free of duplicates (lemma \<open>add_tag_distinct\<close>), but
  \<open>Client.__init__\<close> appends the default tag without the test that \<open>add_tag\<close> makes:
  when \<open>generate_uuid()\<close> returns the string that is the default tag, the new session
  holds that tag twice.
\<close>

theorem Client_init_duplicate_tag:
  "Client_init (Some ''abc12345'') Map.empty ''abc12345'' still_clock [] ''10.0.0.5'' =
     Inr (\<lparr>keep_alive = True, uuid = ''abc12345'', addr = ''10.0.0.5'', send_queue = [],
           tags = [''abc12345'', ''10.0.0.5'', ''abc12345'']\<rparr>, []) \<and>
   \<not> distinct [''abc12345'', ''10.0.0.5'', ''abc12345'']"
  by (simp add: Client_init_def commands_to_run_def autoruns_get_def)

lemma concat_map_single_key:
  assumes "\<forall>t\<in>set ts. t \<noteq> r \<longrightarrow> f t = []"
  shows "concat (map f ts) = concat (replicate (count_list ts r) (f r))"
  using assms by (induction ts) auto

lemma Client_init_runs_autoruns:
  assumes "ts = [uid, a] @ (case dt of None \<Rightarrow> [] | Some t \<Rightarrow> [t])"
    and "\<forall>t\<in>set ts. \<forall>cmds. au t = Some cmds \<longrightarrow>
           (\<forall>cmd\<in>set cmds. \<exists>ch\<in>set cmd. \<not> isspace ch)"
  shows "\<exists>c ms'. Client_init dt au uid clock ms a = Inr (c, ms') \<and> tags c = ts \<and>
           queued_commands ms' c =
             concat (map (\<lambda>t. case au t of None \<Rightarrow> [] | Some cmds \<Rightarrow> cmds) ts) \<and>
           send_queue c = [length ms ..< length ms'] \<and> take (length ms) ms' = ms \<and>
           (\<forall>m. send_queue (send c m) = send_queue c @ [m]) \<and>
           (au ''red'' = Some [''whoami'', ''id''] \<and> count_list ts ''red'' = 1 \<and>
            (\<forall>t\<in>set ts. t \<noteq> ''red'' \<longrightarrow> au t = None) \<longrightarrow>
              queued_commands ms' c = [''whoami'', ''id''])"
proof -
  let ?c1 = "\<lparr>keep_alive = True, uuid = uid, addr = a, send_queue = [], tags = ts\<rparr>"
  let ?cmds = "concat (map (autoruns_get au) ts)"
  have init: "Client_init dt au uid clock ms a = send_autoruns clock 0 ?cmds (?c1, ms)"
    by (simp add: Client_init_def Let_def commands_to_run_concat assms(1) split: option.splits)
  have "\<forall>cmd\<in>set ?cmds. \<not> (\<forall>ch\<in>set cmd. isspace ch)"
  proof
    fix cmd
    assume "cmd \<in> set ?cmds"
    then obtain t where t: "t \<in> set ts" and "cmd \<in> set (autoruns_get au t)"
      by auto
    then obtain cmds where "au t = Some cmds" and "cmd \<in> set cmds"
      by (cases "au t") (auto simp: autoruns_get_def)
    with assms(2) t have "\<exists>ch\<in>set cmd. \<not> isspace ch" by blast
    then show "\<not> (\<forall>ch\<in>set cmd. isspace ch)" by blast
  qed
  from send_autoruns_runs[OF this, of clock 0 ?c1 ms] obtain c ms'
    where r: "send_autoruns clock 0 ?cmds (?c1, ms) = Inr (c, ms')"
      and q: "send_queue c = [length ms ..< length ms + length ?cmds]"
      and t: "take (length ms) ms' = ms"
      and d: "map command (drop (length ms) ms') = ?cmds"
    by auto
  have tg: "tags c = ts"
    using send_autoruns_keeps[OF r] by simp
  have "length (drop (length ms) ms') = length ?cmds"
    using d by (metis length_map)
  moreover have "length ms \<le> length ms'"
    using t by (metis length_take min.cobounded1)
  ultimately have len: "length ms + length ?cmds = length ms'" by simp
  have q': "send_queue c = [length ms ..< length ms']"
    using q len by simp
  have "queued_commands ms' c = map command (map (\<lambda>i. ms' ! i) [length ms ..< length ms'])"
    by (simp add: queued_commands_def q')
  also have "\<dots> = ?cmds"
    by (simp only: map_nth_upt_drop d)
  finally have qc: "queued_commands ms' c = ?cmds" .
  have same: "autoruns_get au = (\<lambda>t. case au t of None \<Rightarrow> [] | Some cmds \<Rightarrow> cmds)"
    by (rule ext) (simp add: autoruns_get_def)
  have red: "queued_commands ms' c = [''whoami'', ''id'']"
    if "au ''red'' = Some [''whoami'', ''id''] \<and> count_list ts ''red'' = 1 \<and>
        (\<forall>t\<in>set ts. t \<noteq> ''red'' \<longrightarrow> au t = None)"
  proof -
    from that have z: "\<forall>t\<in>set ts. t \<noteq> ''red'' \<longrightarrow> autoruns_get au t = []"
      by (simp add: autoruns_get_def)
    have "?cmds = concat (replicate (count_list ts ''red'') (autoruns_get au ''red''))"
      by (rule concat_map_single_key[OF z])
    also have "\<dots> = [''whoami'', ''id'']"
      using that by (simp add: autoruns_get_def)
    finally show ?thesis by (simp only: qc)
  qed
  have snd: "\<forall>m. send_queue (send c m) = send_queue c @ [m]"
    by (simp add: send_def)
  show ?thesis
    unfolding init r using tg qc[unfolded same] q' t snd red by blast
qed

lemma Client_init_blank_autorun:
  assumes "ts = [uid, a] @ (case dt of None \<Rightarrow> [] | Some t \<Rightarrow> [t])"
    and "t \<in> set ts" and "au t = Some cmds" and "cmd \<in> set cmds"
    and "\<forall>ch\<in>set cmd. isspace ch"
  shows "Client_init dt au uid clock ms a = Inl IndexError"
proof -
  let ?c1 = "\<lparr>keep_alive = True, uuid = uid, addr = a, send_queue = [], tags = ts\<rparr>"
  let ?cmds = "concat (map (autoruns_get au) ts)"
  have init: "Client_init dt au uid clock ms a = send_autoruns clock 0 ?cmds (?c1, ms)"
    by (simp add: Client_init_def Let_def commands_to_run_concat assms(1) split: option.splits)
  have "cmd \<in> set (autoruns_get au t)"
    using assms(3,4) by (simp add: autoruns_get_def)
  with assms(2) have "cmd \<in> set ?cmds" by auto
  from send_autoruns_blank[OF this assms(5)] show ?thesis
    by (simp only: init)
qed

text \<open>
  C7.  With the table that maps \<open>red\<close> to \<open>whoami\<close>, \<open>id\<close> and the default tag \<open>red\<close>,
  the constructor enqueues the two commands in that order, and whenever every listed
  text has a character that is not whitespace the queue holds the listed texts in tag
  order (lemma \<open>Client_init_runs_autoruns\<close>).  But \<open>do_settagautos\<close> stores the lines
  of the file as \<open>readlines()\<close> returns them, and for a file with an empty line the
  text of that line is a lone line feed: \<open>Message\<close> raises \<open>IndexError\<close> on it, the
  constructor does not catch it, and no session is made, so none of the listed commands
  is enqueued.
\<close>

theorem autorun_blank_line_raises:
  "Client_init (Some ''red'') [''red'' \<mapsto> [''whoami'', ''id'']] ''abc12345'' still_clock []
     ''10.0.0.5'' =
     Inr (\<lparr>keep_alive = True, uuid = ''abc12345'', addr = ''10.0.0.5'', send_queue = [0, 1],
           tags = [''abc12345'', ''10.0.0.5'', ''red'']\<rparr>,
          [\<lparr>command = ''whoami'', timestamp = ''20240309070500'', results = None,
            job_name = ''whoami''\<rparr>,
           \<lparr>command = ''id'', timestamp = ''20240309070500'', results = None,
            job_name = ''id''\<rparr>]) \<and>
   Client_init (Some ''red'') [''red'' \<mapsto> [''whoami'' @ [CHR 0x0A], [CHR 0x0A]]] ''abc12345''
     still_clock [] ''10.0.0.5'' = Inl IndexError"
proof -
  have a: "Client_init (Some ''red'') [''red'' \<mapsto> [''whoami'', ''id'']] ''abc12345'' still_clock []
     ''10.0.0.5'' =
     Inr (\<lparr>keep_alive = True, uuid = ''abc12345'', addr = ''10.0.0.5'', send_queue = [0, 1],
           tags = [''abc12345'', ''10.0.0.5'', ''red'']\<rparr>,
          [\<lparr>command = ''whoami'', timestamp = ''20240309070500'', results = None,
            job_name = ''whoami''\<rparr>,
           \<lparr>command = ''id'', timestamp = ''20240309070500'', results = None,
            job_name = ''id''\<rparr>])"
    by code_simp
  have b: "Client_init (Some ''red'') [''red'' \<mapsto> [''whoami'' @ [CHR 0x0A], [CHR 0x0A]]]
     ''abc12345'' still_clock [] ''10.0.0.5'' = Inl IndexError"
    by code_simp
  show ?thesis by (intro conjI a b)
qed

section \<open>The pool\<close>

lemma remove_client_member:
  assumes "\<not> clients_lock w" and "c \<in> set (clients w)"
  shows "remove_client w c =
         (Returned (),
          w\<lparr>objects := (objects w)[c := shutdown (objects w ! c)],
            clients := remove1 c (clients w), clients_lock := False\<rparr>)"
  using assms by (simp add: remove_client_def Let_def)

lemma remove_client_absent:
  assumes "\<not> clients_lock w" and "c \<notin> set (clients w)"
  shows "remove_client w c =
         (Raised ValueError,
          w\<lparr>clients_lock := True, objects := (objects w)[c := shutdown (objects w ! c)]\<rparr>)"
  using assms by (simp add: remove_client_def Let_def)

lemma remove_client_locked: "clients_lock w \<Longrightarrow> remove_client w c = (Blocked, w)"
  by (simp add: remove_client_def)

lemma filter_none: "filter P xs = [] \<Longrightarrow> filter (\<lambda>x. \<not> P x) xs = xs"
  by (induction xs) (auto split: if_splits)

text \<open>
  The loop over a new list \<open>cs\<close> that holds, from position \<open>i\<close> on, the elements of the
  rest of the pool that satisfy \<open>P\<close>: every call of \<open>remove_client\<close> finds its element,
  and the elements of the pool that stay are those that do not satisfy \<open>P\<close>.
\<close>

lemma remove_loop_New_list:
  assumes "\<not> clients_lock w" and "clients w = pre @ rest" and "\<forall>x\<in>set pre. \<not> P x"
    and "drop i cs = filter P rest"
  shows "\<exists>w'. remove_loop (New_list cs) i w = (Returned (), w') \<and>
           clients w' = pre @ filter (\<lambda>x. \<not> P x) rest \<and> \<not> clients_lock w' \<and>
           messages w' = messages w \<and>
           objects w' = fold (\<lambda>c os. os[c := shutdown (os ! c)]) (drop i cs) (objects w)"
  using assms
proof (induction "length cs - i" arbitrary: i w pre rest)
  case 0
  then have "drop i cs = []" by simp
  with 0 have "filter (\<lambda>x. \<not> P x) rest = rest" by (simp add: filter_none)
  moreover have "remove_loop (New_list cs) i w = (Returned (), w)"
    using 0 by (subst remove_loop.simps) (simp add: found_list_def)
  ultimately show ?case
    using 0 \<open>drop i cs = []\<close> by simp
next
  case (Suc n)
  then have lt: "i < length cs" by simp
  let ?x = "cs ! i"
  have dr: "drop i cs = ?x # drop (Suc i) cs"
    using lt by (simp add: Cons_nth_drop_Suc)
  with Suc.prems(4) have "filter P rest = ?x # drop (Suc i) cs" by simp
  then obtain r1 r2 where rest: "rest = r1 @ ?x # r2" and r1: "\<forall>u\<in>set r1. \<not> P u"
    and px: "P ?x" and r2: "drop (Suc i) cs = filter P r2"
    by (auto simp: filter_eq_Cons_iff)
  have notin: "?x \<notin> set (pre @ r1)"
    using Suc.prems(3) r1 px by auto
  have mem: "?x \<in> set (clients w)"
    by (simp add: Suc.prems(2) rest)
  let ?w1 = "w\<lparr>objects := (objects w)[?x := shutdown (objects w ! ?x)],
              clients := remove1 ?x (clients w), clients_lock := False\<rparr>"
  have rc: "remove_client w ?x = (Returned (), ?w1)"
    by (rule remove_client_member[OF Suc.prems(1) mem])
  have cl: "clients ?w1 = (pre @ r1) @ r2"
    using notin by (simp add: Suc.prems(2) rest remove1_append)
  have step: "remove_loop (New_list cs) i w = remove_loop (New_list cs) (Suc i) ?w1"
    using lt by (subst remove_loop.simps) (simp add: found_list_def rc)
  have n: "n = length cs - Suc i" using Suc.hyps(2) by simp
  have "\<forall>x\<in>set (pre @ r1). \<not> P x" using Suc.prems(3) r1 by auto
  from Suc.hyps(1)[OF n _ cl this r2] obtain w'
    where res: "remove_loop (New_list cs) (Suc i) ?w1 = (Returned (), w')"
      and c': "clients w' = (pre @ r1) @ filter (\<lambda>x. \<not> P x) r2"
      and l': "\<not> clients_lock w'" and m': "messages w' = messages ?w1"
      and o': "objects w' =
               fold (\<lambda>c os. os[c := shutdown (os ! c)]) (drop (Suc i) cs) (objects ?w1)"
    by auto
  have "clients w' = pre @ filter (\<lambda>x. \<not> P x) rest"
    using c' r1 px by (simp add: rest)
  moreover have "objects w' =
      fold (\<lambda>c os. os[c := shutdown (os ! c)]) (drop i cs) (objects w)"
    by (simp add: o' dr)
  ultimately show ?case
    using step res l' m' by simp
qed

lemma fold_shutdown_nth:
  "c < length os \<Longrightarrow>
   fold (\<lambda>c os. os[c := shutdown (os ! c)]) cs os ! c =
     (if c \<in> set cs then shutdown (os ! c) else os ! c)"
proof (induction cs arbitrary: os)
  case Nil
  then show ?case by simp
next
  case (Cons x cs)
  let ?os = "os[x := shutdown (os ! x)]"
  have "c < length ?os" using Cons.prems by simp
  from Cons.IH[OF this] show ?case
    using Cons.prems by (cases "x = c") (auto simp: shutdown_def)
qed

lemma fold_shutdown_length:
  "length (fold (\<lambda>c os. os[c := shutdown (os ! c)]) cs os) = length os"
  by (induction cs arbitrary: os) simp_all

text \<open>
  C3.  \<open>remove_client\<close> of a session that is not in the pool is not a no-op: it raises
  \<open>ValueError\<close> out of \<open>list.remove\<close> and the lock stays held, so the next pool method
  that takes the lock blocks.  Here the first session of the pool is removed twice.
\<close>

theorem remove_client_twice_raises:
  "fst (remove_client world_abc 0) = Returned () \<and>
   clients (snd (remove_client world_abc 0)) = [1, 2] \<and>
   clients_lock (snd (remove_client world_abc 0)) = False \<and>
   fst (remove_client (snd (remove_client world_abc 0)) 0) = Raised ValueError \<and>
   clients_lock (snd (remove_client (snd (remove_client world_abc 0)) 0)) = True \<and>
   fst (add_client (snd (remove_client (snd (remove_client world_abc 0)) 0)) 1) = Blocked"
  by (simp add: remove_client_def add_client_def world_abc_def Let_def)

text \<open>
  For a tag other than the wildcard the loop runs over a new list.  Let \<open>t\<close> be the tag
  as \<open>find_clients_by_tag\<close> compares it.  With the lock free, \<open>remove_clients_by_tag\<close>
  returns; the pool then holds, in their order, exactly the sessions it held before
  whose tags do not contain \<open>t\<close>; those whose tags contain \<open>t\<close> are shut down and no
  other object is changed; the lock is free again.
\<close>

lemma remove_clients_by_tag_tagged:
  assumes "\<not> clients_lock w" and "t = py_strip quote_chars tag" and "t \<noteq> ''*''"
  shows "\<exists>w'. remove_clients_by_tag w tag = (Returned (), w') \<and>
           clients w' = filter (\<lambda>c. t \<notin> set (tags (objects w ! c))) (clients w) \<and>
           \<not> clients_lock w' \<and> messages w' = messages w \<and>
           length (objects w') = length (objects w) \<and>
           (\<forall>c<length (objects w).
              objects w' ! c =
                (if c \<in> set (clients w) \<and> t \<in> set (tags (objects w ! c))
                 then shutdown (objects w ! c) else objects w ! c))"
proof -
  let ?P = "\<lambda>c. t \<in> set (tags (objects w ! c))"
  let ?cs = "filter ?P (clients w)"
  have f: "find_clients_by_tag w tag = New_list ?cs"
    using assms(2,3) by (simp add: find_clients_by_tag_def Let_def)
  have "\<exists>w'. remove_loop (New_list ?cs) 0 w = (Returned (), w') \<and>
           clients w' = [] @ filter (\<lambda>x. \<not> ?P x) (clients w) \<and> \<not> clients_lock w' \<and>
           messages w' = messages w \<and>
           objects w' = fold (\<lambda>c os. os[c := shutdown (os ! c)]) (drop 0 ?cs) (objects w)"
    by (rule remove_loop_New_list[OF assms(1)]) simp_all
  then obtain w' where r: "remove_loop (New_list ?cs) 0 w = (Returned (), w')"
    and c: "clients w' = filter (\<lambda>x. \<not> ?P x) (clients w)"
    and l: "\<not> clients_lock w'" and m: "messages w' = messages w"
    and o: "objects w' = fold (\<lambda>c os. os[c := shutdown (os ! c)]) ?cs (objects w)"
    by auto
  have len: "length (objects w') = length (objects w)"
    by (simp add: o fold_shutdown_length)
  have nth: "\<forall>c<length (objects w).
      objects w' ! c =
        (if c \<in> set (clients w) \<and> t \<in> set (tags (objects w ! c))
         then shutdown (objects w ! c) else objects w ! c)"
    by (simp add: o fold_shutdown_nth)
  show ?thesis
    unfolding remove_clients_by_tag_def f using r c l m len nth by blast
qed

text \<open>
  C1.  Removal by a tag other than \<open>*\<close> removes exactly the sessions that hold the tag
  (lemma \<open>remove_clients_by_tag_tagged\<close>).  Removal by \<open>*\<close> does not remove every
  session: \<open>find_clients_by_tag\<close> returns the list \<open>self.clients\<close> itself, and the loop
  walks that list by index while \<open>remove_client\<close> shortens it, so every second session
  is skipped.  From a pool of three sessions the call returns with the second session
  still in the pool and still alive.
\<close>

theorem remove_clients_by_tag_wildcard_skips:
  "fst (remove_clients_by_tag world_abc ''*'') = Returned () \<and>
   clients (snd (remove_clients_by_tag world_abc ''*'')) = [1] \<and>
   map keep_alive (objects (snd (remove_clients_by_tag world_abc ''*''))) =
     [False, True, False]"
proof -
  have a: "fst (remove_clients_by_tag world_abc ''*'') = Returned ()"
    by code_simp
  have b: "clients (snd (remove_clients_by_tag world_abc ''*'')) = [1]"
    by code_simp
  have c: "map keep_alive (objects (snd (remove_clients_by_tag world_abc ''*''))) =
     [False, True, False]"
    by code_simp
  show ?thesis by (intro conjI a b c)
qed



text \<open>
  C5.  The tag \<open>*\<close> finds the whole pool, whatever the tags are.  A tag is looked up
  with the quotes stripped from both ends; for a tag that, so read, is not \<open>*\<close> and is
  held by no session of the pool, the found list is empty and \<open>send_message_by_tag\<close>
  returns with the state unchanged: nothing is enqueued on any session.
\<close>

theorem find_clients_by_tag_wildcard_and_unknown:
  "found_list w (find_clients_by_tag w ''*'') = clients w \<and>
   (py_strip quote_chars tag \<noteq> ''*'' \<and>
    (\<forall>c\<in>set (clients w). py_strip quote_chars tag \<notin> set (tags (objects w ! c))) \<longrightarrow>
      found_list w (find_clients_by_tag w tag) = [] \<and>
      send_message_by_tag w tag m = (Returned (), w))"
proof (intro conjI impI)
  have "py_strip quote_chars ''*'' = ''*''"
    by (simp add: py_strip_def quote_chars_def)
  then show "found_list w (find_clients_by_tag w ''*'') = clients w"
    by (simp add: find_clients_by_tag_def found_list_def)
next
  assume a: "py_strip quote_chars tag \<noteq> ''*'' \<and>
    (\<forall>c\<in>set (clients w). py_strip quote_chars tag \<notin> set (tags (objects w ! c)))"
  then have "filter (\<lambda>c. py_strip quote_chars tag \<in> set (tags (objects w ! c))) (clients w) = []"
    by (simp add: filter_empty_conv)
  with a show e: "found_list w (find_clients_by_tag w tag) = []"
    by (simp add: find_clients_by_tag_def found_list_def Let_def)
  then show "send_message_by_tag w tag m = (Returned (), w)"
    by (simp add: send_message_by_tag_def)
qed

theorem find_clients_by_tag_wildcard_and_unknown_witness:
  "found_list world_abc (find_clients_by_tag world_abc ''*'') = [0, 1, 2] \<and>
   py_strip quote_chars ''db'' \<noteq> ''*'' \<and>
   ''db'' \<notin> set (tags session_a) \<and> ''db'' \<notin> set (tags session_b) \<and>
   ''db'' \<notin> set (tags session_c) \<and>
   found_list world_abc (find_clients_by_tag world_abc ''db'') = [] \<and>
   send_message_by_tag world_abc ''db'' 0 = (Returned (), world_abc)"
proof -
  note t = find_clients_by_tag_wildcard_and_unknown[of world_abc "''db''" 0]
  have s: "py_strip quote_chars ''db'' = ''db''"
    by (simp add: py_strip_def quote_chars_def)
  have n: "py_strip quote_chars ''db'' \<noteq> ''*''" by (simp add: s)
  have a: "''db'' \<notin> set (tags session_a)" "''db'' \<notin> set (tags session_b)"
    "''db'' \<notin> set (tags session_c)"
    by (simp_all add: session_a_def session_b_def session_c_def)
  have h: "\<forall>c\<in>set (clients world_abc).
      py_strip quote_chars ''db'' \<notin> set (tags (objects world_abc ! c))"
    using a by (simp add: s world_abc_def)
  have "found_list world_abc (find_clients_by_tag world_abc ''*'') = clients world_abc"
    by (rule t[THEN conjunct1])
  then have w: "found_list world_abc (find_clients_by_tag world_abc ''*'') = [0, 1, 2]"
    by (simp add: world_abc_def)
  from t[THEN conjunct2, THEN mp, OF conjI[OF n h]]
  have e: "found_list world_abc (find_clients_by_tag world_abc ''db'') = []"
    and u: "send_message_by_tag world_abc ''db'' 0 = (Returned (), world_abc)"
    by simp_all
  show ?thesis by (intro conjI w n a e u)
qed







section \<open>The lock\<close>

lemma lock_ok_excl: "lock_ok h k \<Longrightarrow> lock_ok (\<not> h) k \<Longrightarrow> False"
  by (induction h k rule: lock_ok.induct) auto

lemma inside_iff: "lock_ok h (todo t) \<Longrightarrow> inside t = h"
  unfolding inside_def using lock_ok_excl[of True "todo t"] by (cases h) auto

lemma do_frame_lock_ok:
  assumes "lock_ok h (f # k)" and "do_frame f k s w = Stepped w' t'"
  shows "(\<not> h \<and> \<not> clients_lock w \<and> clients_lock w' \<and> lock_ok True (todo t')) \<or>
         (h \<and> \<not> clients_lock w' \<and> lock_ok False (todo t')) \<or>
         (clients_lock w' = clients_lock w \<and> lock_ok h (todo t'))"
proof (cases f)
  case (Act a)
  with assms show ?thesis
    by (cases a) (auto split: if_splits simp: send_to_def)
next
  case (Remove_next g i)
  with assms show ?thesis
    by (auto split: if_splits simp: remove_client_body_def)
qed (use assms in \<open>auto split: if_splits\<close>)

lemma do_frame_raising: "do_frame f k s w = Raising e w' \<Longrightarrow> w' = w"
proof (cases f)
  case (Act a)
  assume "do_frame f k s w = Raising e w'"
  with Act show ?thesis by (cases a) (auto split: if_splits)
qed (auto split: if_splits)

lemma discipline_update:
  assumes "lock_discipline (w, ts)" and "i < length ts"
    and "lock_ok True (todo t') \<or> lock_ok False (todo t')"
    and "inside t' \<longrightarrow> clients_lock w'"
    and "inside t' \<longrightarrow> (\<forall>j<length ts. j \<noteq> i \<longrightarrow> \<not> inside (ts ! j))"
    and "clients_lock w' \<or> (\<forall>j<length ts. j \<noteq> i \<longrightarrow> \<not> inside (ts ! j))"
  shows "lock_discipline (w', ts[i := t'])"
proof -
  have one: "\<And>j l. j < length ts \<Longrightarrow> l < length ts \<Longrightarrow> inside (ts ! j) \<Longrightarrow>
      inside (ts ! l) \<Longrightarrow> j = l"
    using assms(1) unfolding lock_discipline_def fst_conv snd_conv by blast
  have ok: "\<And>j. j < length ts \<Longrightarrow> lock_ok True (todo (ts ! j)) \<or> lock_ok False (todo (ts ! j))"
    using assms(1) unfolding lock_discipline_def fst_conv snd_conv by blast
  have new: "\<And>j. j < length ts \<Longrightarrow> j \<noteq> i \<Longrightarrow> ts[i := t'] ! j = ts ! j"
    by simp
  have upd: "ts[i := t'] ! i = t'" using assms(2) by simp
  show ?thesis
    unfolding lock_discipline_def fst_conv snd_conv length_list_update
  proof (intro conjI allI impI)
    fix j
    assume j: "j < length ts" and ins: "inside (ts[i := t'] ! j)"
    show "clients_lock w'"
    proof (cases "j = i")
      case True
      with ins upd have "inside t'" by simp
      with assms(4) show ?thesis by simp
    next
      case False
      with ins new[OF j] have "inside (ts ! j)" by simp
      with assms(6) j False show ?thesis by blast
    qed
  next
    fix j l
    assume j: "j < length ts" and l: "l < length ts"
      and ins: "inside (ts[i := t'] ! j) \<and> inside (ts[i := t'] ! l)"
    show "j = l"
    proof (cases "j = i")
      case ji: True
      show ?thesis
      proof (cases "l = i")
        case True
        with ji show ?thesis by simp
      next
        case False
        from ins ji upd have "inside t'" by simp
        moreover from ins new[OF l False] have "inside (ts ! l)" by simp
        ultimately show ?thesis using assms(5) l False by blast
      qed
    next
      case ji: False
      from ins new[OF j ji] have ij: "inside (ts ! j)" by simp
      show ?thesis
      proof (cases "l = i")
        case True
        with ins upd have "inside t'" by simp
        with ij assms(5) j ji show ?thesis by blast
      next
        case False
        with ins new[OF l] have "inside (ts ! l)" by simp
        from one[OF j l ij this] show ?thesis .
      qed
    qed
  next
    fix j
    assume j: "j < length ts"
    show "lock_ok True (todo (ts[i := t'] ! j)) \<or> lock_ok False (todo (ts[i := t'] ! j))"
    proof (cases "j = i")
      case True
      with upd assms(3) show ?thesis by simp
    next
      case False
      with new[OF j] ok[OF j] show ?thesis by simp
    qed
  qed
qed

lemma sched_step_discipline:
  assumes inv: "lock_discipline s" and st: "sched_step i s = Some s'"
  shows "lock_discipline s'"
proof -
  obtain w ts where s: "s = (w, ts)" by (cases s)
  from st have i: "i < length ts"
    by (simp add: sched_step_def s split: if_splits)
  let ?t = "ts ! i"
  from inv i obtain h where h: "lock_ok h (todo ?t)"
    unfolding lock_discipline_def s by auto
  then have ih: "inside ?t = h" by (rule inside_iff)
  have held: "\<And>j. j < length ts \<Longrightarrow> inside (ts ! j) \<Longrightarrow> clients_lock w"
    using inv unfolding lock_discipline_def s by auto
  have one: "\<And>j l. j < length ts \<Longrightarrow> l < length ts \<Longrightarrow> inside (ts ! j) \<Longrightarrow>
      inside (ts ! l) \<Longrightarrow> j = l"
    using inv unfolding lock_discipline_def s by auto
  from st i obtain f k where tk: "todo ?t = f # k"
    by (cases "todo ?t") (auto simp: sched_step_def s tstep_def)
  show ?thesis
  proof (cases "do_frame f k (seen ?t) w")
    case (Stepped w' t')
    with st i tk have s': "s' = (w', ts[i := t'])"
      by (simp add: sched_step_def s tstep_def)
    from do_frame_lock_ok[OF h[unfolded tk] Stepped]
    consider (acq) "\<not> h" "\<not> clients_lock w" "clients_lock w'" "lock_ok True (todo t')"
      | (rel) "h" "\<not> clients_lock w'" "lock_ok False (todo t')"
      | (same) "clients_lock w' = clients_lock w" "lock_ok h (todo t')"
      by blast
    then show ?thesis
    proof cases
      case acq
      have none: "\<forall>j<length ts. \<not> inside (ts ! j)"
        using held acq(2) by blast
      show ?thesis unfolding s'
        by (rule discipline_update[OF inv[unfolded s] i]) (use acq none in auto)
    next
      case rel
      have "\<not> inside t'" using inside_iff[OF rel(3)] by simp
      moreover have "\<forall>j<length ts. j \<noteq> i \<longrightarrow> \<not> inside (ts ! j)"
        using one[OF _ i] ih rel(1) i by blast
      ultimately show ?thesis unfolding s'
        by (intro discipline_update[OF inv[unfolded s] i]) (use rel in auto)
    next
      case same
      have it: "inside t' = h" using inside_iff[OF same(2)] .
      have oth: "h \<Longrightarrow> \<forall>j<length ts. j \<noteq> i \<longrightarrow> \<not> inside (ts ! j)"
        using one[OF _ i] ih i by blast
      have lk: "h \<Longrightarrow> clients_lock w" using held[OF i] ih by simp
      have free: "\<not> clients_lock w \<Longrightarrow> \<forall>j<length ts. \<not> inside (ts ! j)"
        using held by blast
      show ?thesis unfolding s'
      proof (rule discipline_update[OF inv[unfolded s] i])
        show "lock_ok True (todo t') \<or> lock_ok False (todo t')"
          using same(2) by (cases h) auto
        show "inside t' \<longrightarrow> clients_lock w'" using it lk same(1) by simp
        show "inside t' \<longrightarrow> (\<forall>j<length ts. j \<noteq> i \<longrightarrow> \<not> inside (ts ! j))"
          using it oth by simp
        show "clients_lock w' \<or> (\<forall>j<length ts. j \<noteq> i \<longrightarrow> \<not> inside (ts ! j))"
          using same(1) free by (cases "clients_lock w") auto
      qed
    qed
  next
    case (Raising e w')
    then have w': "w' = w" by (rule do_frame_raising)
    from Raising st i tk have s': "s' = (w, ts[i := ?t\<lparr>todo := []\<rparr>])"
      by (simp add: sched_step_def s tstep_def w')
    have ni: "\<not> inside (?t\<lparr>todo := []\<rparr>)" by (simp add: inside_def)
    have free: "\<not> clients_lock w \<Longrightarrow> \<forall>j<length ts. \<not> inside (ts ! j)"
      using held by blast
    show ?thesis unfolding s'
    proof (rule discipline_update[OF inv[unfolded s] i])
      show "lock_ok True (todo (?t\<lparr>todo := []\<rparr>)) \<or> lock_ok False (todo (?t\<lparr>todo := []\<rparr>))"
        by simp
      show "inside (?t\<lparr>todo := []\<rparr>) \<longrightarrow> clients_lock w" using ni by simp
      show "inside (?t\<lparr>todo := []\<rparr>) \<longrightarrow> (\<forall>j<length ts. j \<noteq> i \<longrightarrow> \<not> inside (ts ! j))"
        using ni by simp
      show "clients_lock w \<or> (\<forall>j<length ts. j \<noteq> i \<longrightarrow> \<not> inside (ts ! j))"
        using free by (cases "clients_lock w") auto
    qed
  next
    case Waiting
    with st i tk show ?thesis by (simp add: sched_step_def s tstep_def)
  next
    case Finished
    with st i tk show ?thesis by (simp add: sched_step_def s tstep_def)
  qed
qed

lemma run_discipline:
  "lock_discipline s \<Longrightarrow> run sched s = Some s' \<Longrightarrow> lock_discipline s'"
proof (induction sched arbitrary: s)
  case Nil
  then show ?case by simp
next
  case (Cons i sched)
  from Cons.prems(2) obtain s1 where a: "sched_step i s = Some s1" and b: "run sched s1 = Some s'"
    by (auto split: option.splits)
  from Cons.IH[OF sched_step_discipline[OF Cons.prems(1) a] b] show ?case .
qed

lemma start_discipline:
  assumes "list_all (\<lambda>t. lock_ok False (todo t)) ts"
  shows "lock_discipline (w, ts)"
proof -
  have ok: "\<And>i. i < length ts \<Longrightarrow> lock_ok False (todo (ts ! i))"
    using assms by (simp add: list_all_length)
  then have "\<And>i. i < length ts \<Longrightarrow> \<not> inside (ts ! i)"
    using inside_iff by blast
  with ok show ?thesis unfolding lock_discipline_def by auto
qed

lemma bodies_lock_ok:
  "lock_ok False (add_client_body c)" "lock_ok False (remove_client_body c)"
  "lock_ok False (find_clients_by_tag_body tag)" "lock_ok False get_tags_body"
  "lock_ok False (send_message_by_tag_body tag m)"
  "lock_ok False (remove_clients_by_tag_body tag)"
  by (simp_all add: add_client_body_def remove_client_body_def find_clients_by_tag_body_def
      get_tags_body_def send_message_by_tag_body_def remove_clients_by_tag_body_def)

lemma add_client_body_run:
  assumes "\<not> clients_lock w"
  shows "run [0] (w, [\<lparr>todo = add_client_body c, seen = s\<rparr>]) =
           Some (w\<lparr>clients_lock := True\<rparr>,
                 [\<lparr>todo = [Act (List_append c), Act Release], seen = s\<rparr>])"
    and "run [0, 0] (w, [\<lparr>todo = add_client_body c, seen = s\<rparr>]) =
           Some (w\<lparr>clients_lock := True, clients := clients w @ [c]\<rparr>,
                 [\<lparr>todo = [Act Release], seen = s\<rparr>])"
    and "run [0, 0, 0] (w, [\<lparr>todo = add_client_body c, seen = s\<rparr>]) =
           Some (snd (add_client w c), [\<lparr>todo = [], seen = s\<rparr>])"
  using assms
  by (simp_all add: sched_step_def tstep_def add_client_body_def add_client_def Let_def)

lemma remove_client_body_run:
  assumes "\<not> clients_lock w" and "c \<in> set (clients w)"
  shows "run [0, 0, 0] (w, [\<lparr>todo = remove_client_body c, seen = s\<rparr>]) =
           Some (w\<lparr>clients_lock := True,
                   objects := (objects w)[c := shutdown (objects w ! c)],
                   clients := remove1 c (clients w)\<rparr>,
                 [\<lparr>todo = [Act Release], seen = s\<rparr>])"
    and "run [0, 0, 0, 0] (w, [\<lparr>todo = remove_client_body c, seen = s\<rparr>]) =
           Some (snd (remove_client w c), [\<lparr>todo = [], seen = s\<rparr>])"
  using assms
  by (simp_all add: sched_step_def tstep_def remove_client_body_def remove_client_def Let_def)

lemma found_list_send_to: "found_list (send_to m w c) f = found_list w f"
  by (simp add: found_list_def send_to_def split: found.splits)

lemma send_next_run:
  "run (replicate (2 * (length (found_list w f) - i) + 1) 0)
       (w, [\<lparr>todo = Send_next f i m # k, seen = s\<rparr>]) =
   Some (foldl (send_to m) w (drop i (found_list w f)), [\<lparr>todo = k, seen = s\<rparr>])"
proof (induction "length (found_list w f) - i" arbitrary: i w)
  case 0
  then have "\<not> i < length (found_list w f)" by simp
  with 0 show ?case
    by (simp add: sched_step_def tstep_def)
next
  case (Suc n)
  then have lt: "i < length (found_list w f)" by simp
  let ?c = "found_list w f ! i"
  let ?w = "send_to m w ?c"
  have n: "n = length (found_list ?w f) - Suc i"
    using Suc.hyps(2) by (simp add: found_list_send_to)
  have e: "2 * (length (found_list w f) - i) + 1 =
      Suc (Suc (2 * (length (found_list ?w f) - Suc i) + 1))"
    using Suc.hyps(2) n by linarith
  have rep: "replicate (2 * (length (found_list w f) - i) + 1) (0::nat) =
      0 # 0 # replicate (2 * (length (found_list ?w f) - Suc i) + 1) 0"
    by (simp only: e replicate_Suc)
  have two: "run (0 # 0 # sched) (w, [\<lparr>todo = Send_next f i m # k, seen = s\<rparr>]) =
      run sched (?w, [\<lparr>todo = Send_next f (Suc i) m # k, seen = s\<rparr>])" for sched
    using lt by (simp add: sched_step_def tstep_def)
  have dr: "drop i (found_list w f) = ?c # drop (Suc i) (found_list ?w f)"
    using lt by (simp add: Cons_nth_drop_Suc found_list_send_to)
  show ?case
    unfolding rep two Suc.hyps(1)[OF n] dr by simp
qed

lemma send_message_by_tag_body_run:
  "run (replicate (2 * length (found_list w (find_clients_by_tag w tag)) + 2) 0)
       (w, [\<lparr>todo = send_message_by_tag_body tag m, seen = s\<rparr>]) =
   Some (snd (send_message_by_tag w tag m), [\<lparr>todo = [], seen = s\<rparr>])"
proof -
  let ?f = "find_clients_by_tag w tag"
  have e: "2 * length (found_list w ?f) + 2 = Suc (2 * (length (found_list w ?f) - 0) + 1)"
    by simp
  have rep: "replicate (2 * length (found_list w ?f) + 2) (0::nat) =
      0 # replicate (2 * (length (found_list w ?f) - 0) + 1) 0"
    by (simp only: e replicate_Suc)
  have one: "run (0 # sched) (w, [\<lparr>todo = send_message_by_tag_body tag m, seen = s\<rparr>]) =
      run sched (w, [\<lparr>todo = [Send_next ?f 0 m], seen = s\<rparr>])" for sched
    by (simp add: sched_step_def tstep_def send_message_by_tag_body_def)
  show ?thesis
    unfolding rep one send_next_run by (simp add: send_message_by_tag_def)
qed

lemma remove_clients_by_tag_body_run:
  "run [0, 0] (w, [\<lparr>todo = remove_clients_by_tag_body tag, seen = s\<rparr>]) =
   Some (w, [\<lparr>todo =
     (if 0 < length (found_list w (find_clients_by_tag w tag))
      then remove_client_body (found_list w (find_clients_by_tag w tag) ! 0) @
           [Remove_next (find_clients_by_tag w tag) 1]
      else []), seen = s\<rparr>])"
  by (simp add: sched_step_def tstep_def remove_clients_by_tag_body_def)

text \<open>
  C9, as the code has it.  Only \<open>add_client\<close> and \<open>remove_client\<close> take the lock.  Each
  of them waits while the lock is held; run from a free lock it takes the lock in its
  first step, makes its whole update with the lock held and gives the lock back in its
  last step, with the result of the method as a whole (for \<open>remove_client\<close> on the path
  where the session is in the pool).  \<open>find_clients_by_tag\<close>, \<open>get_tags\<close> and
  \<open>send_message_by_tag\<close> take no lock: from every state, the lock held or not, they run
  to their end without waiting, reading the pool as it is, and \<open>send_message_by_tag\<close>
  with the result of the method as a whole.  \<open>remove_clients_by_tag\<close> calls
  \<open>find_clients_by_tag\<close> and starts its loop without the lock; the lock is taken only
  by the calls of \<open>remove_client\<close> in the loop.  For any number of threads that each
  start outside the lock (as a thread that calls one of the six methods does) and any
  order of their steps, the lock is held whenever a thread is inside, and at most one
  thread is inside.
\<close>

theorem pool_lock_discipline:
  "(\<not> clients_lock w \<longrightarrow>
      run [0] (w, [\<lparr>todo = add_client_body c, seen = s\<rparr>]) =
        Some (w\<lparr>clients_lock := True\<rparr>,
              [\<lparr>todo = [Act (List_append c), Act Release], seen = s\<rparr>]) \<and>
      run [0, 0] (w, [\<lparr>todo = add_client_body c, seen = s\<rparr>]) =
        Some (w\<lparr>clients_lock := True, clients := clients w @ [c]\<rparr>,
              [\<lparr>todo = [Act Release], seen = s\<rparr>]) \<and>
      run [0, 0, 0] (w, [\<lparr>todo = add_client_body c, seen = s\<rparr>]) =
        Some (snd (add_client w c), [\<lparr>todo = [], seen = s\<rparr>])) \<and>
   (\<not> clients_lock w \<and> c \<in> set (clients w) \<longrightarrow>
      run [0, 0, 0] (w, [\<lparr>todo = remove_client_body c, seen = s\<rparr>]) =
        Some (w\<lparr>clients_lock := True,
                objects := (objects w)[c := shutdown (objects w ! c)],
                clients := remove1 c (clients w)\<rparr>,
              [\<lparr>todo = [Act Release], seen = s\<rparr>]) \<and>
      run [0, 0, 0, 0] (w, [\<lparr>todo = remove_client_body c, seen = s\<rparr>]) =
        Some (snd (remove_client w c), [\<lparr>todo = [], seen = s\<rparr>])) \<and>
   (clients_lock w \<longrightarrow>
      tstep w \<lparr>todo = add_client_body c, seen = s\<rparr> = Waiting \<and>
      tstep w \<lparr>todo = remove_client_body c, seen = s\<rparr> = Waiting) \<and>
   run [0] (w, [\<lparr>todo = find_clients_by_tag_body tag, seen = s\<rparr>]) =
     Some (w, [\<lparr>todo = [], seen = found_list w (find_clients_by_tag w tag)\<rparr>]) \<and>
   run [0] (w, [\<lparr>todo = get_tags_body, seen = s\<rparr>]) = Some (w, [\<lparr>todo = [], seen = s\<rparr>]) \<and>
   run (replicate (2 * length (found_list w (find_clients_by_tag w tag)) + 2) 0)
       (w, [\<lparr>todo = send_message_by_tag_body tag m, seen = s\<rparr>]) =
     Some (snd (send_message_by_tag w tag m), [\<lparr>todo = [], seen = s\<rparr>]) \<and>
   run [0, 0] (w, [\<lparr>todo = remove_clients_by_tag_body tag, seen = s\<rparr>]) =
     Some (w, [\<lparr>todo =
       (if 0 < length (found_list w (find_clients_by_tag w tag))
        then remove_client_body (found_list w (find_clients_by_tag w tag) ! 0) @
             [Remove_next (find_clients_by_tag w tag) 1]
        else []), seen = s\<rparr>]) \<and>
   lock_ok False (add_client_body c) \<and> lock_ok False (remove_client_body c) \<and>
   lock_ok False (find_clients_by_tag_body tag) \<and> lock_ok False get_tags_body \<and>
   lock_ok False (send_message_by_tag_body tag m) \<and>
   lock_ok False (remove_clients_by_tag_body tag) \<and>
   (list_all (\<lambda>t. lock_ok False (todo t)) ts \<and> run sched (w, ts) = Some (w', ts') \<longrightarrow>
      (\<forall>i<length ts'. inside (ts' ! i) \<longrightarrow> clients_lock w') \<and>
      (\<forall>i<length ts'. \<forall>j<length ts'. inside (ts' ! i) \<and> inside (ts' ! j) \<longrightarrow> i = j))"
proof -
  have a: "\<not> clients_lock w \<longrightarrow>
      run [0] (w, [\<lparr>todo = add_client_body c, seen = s\<rparr>]) =
        Some (w\<lparr>clients_lock := True\<rparr>,
              [\<lparr>todo = [Act (List_append c), Act Release], seen = s\<rparr>]) \<and>
      run [0, 0] (w, [\<lparr>todo = add_client_body c, seen = s\<rparr>]) =
        Some (w\<lparr>clients_lock := True, clients := clients w @ [c]\<rparr>,
              [\<lparr>todo = [Act Release], seen = s\<rparr>]) \<and>
      run [0, 0, 0] (w, [\<lparr>todo = add_client_body c, seen = s\<rparr>]) =
        Some (snd (add_client w c), [\<lparr>todo = [], seen = s\<rparr>])"
    using add_client_body_run by blast
  have r: "\<not> clients_lock w \<and> c \<in> set (clients w) \<longrightarrow>
      run [0, 0, 0] (w, [\<lparr>todo = remove_client_body c, seen = s\<rparr>]) =
        Some (w\<lparr>clients_lock := True,
                objects := (objects w)[c := shutdown (objects w ! c)],
                clients := remove1 c (clients w)\<rparr>,
              [\<lparr>todo = [Act Release], seen = s\<rparr>]) \<and>
      run [0, 0, 0, 0] (w, [\<lparr>todo = remove_client_body c, seen = s\<rparr>]) =
        Some (snd (remove_client w c), [\<lparr>todo = [], seen = s\<rparr>])"
    using remove_client_body_run by blast
  have wt: "clients_lock w \<longrightarrow>
      tstep w \<lparr>todo = add_client_body c, seen = s\<rparr> = Waiting \<and>
      tstep w \<lparr>todo = remove_client_body c, seen = s\<rparr> = Waiting"
    by (simp add: tstep_def add_client_body_def remove_client_body_def)
  have f: "run [0] (w, [\<lparr>todo = find_clients_by_tag_body tag, seen = s\<rparr>]) =
     Some (w, [\<lparr>todo = [], seen = found_list w (find_clients_by_tag w tag)\<rparr>])"
    by (simp add: sched_step_def tstep_def find_clients_by_tag_body_def)
  have g: "run [0] (w, [\<lparr>todo = get_tags_body, seen = s\<rparr>]) =
     Some (w, [\<lparr>todo = [], seen = s\<rparr>])"
    by (simp add: sched_step_def tstep_def get_tags_body_def)
  note sm = send_message_by_tag_body_run[of w tag m s]
  note rm = remove_clients_by_tag_body_run[of w tag s]
  have inv: "list_all (\<lambda>t. lock_ok False (todo t)) ts \<and> run sched (w, ts) = Some (w', ts') \<longrightarrow>
      (\<forall>i<length ts'. inside (ts' ! i) \<longrightarrow> clients_lock w') \<and>
      (\<forall>i<length ts'. \<forall>j<length ts'. inside (ts' ! i) \<and> inside (ts' ! j) \<longrightarrow> i = j)"
  proof
    assume h: "list_all (\<lambda>t. lock_ok False (todo t)) ts \<and> run sched (w, ts) = Some (w', ts')"
    then have "lock_discipline (w, ts)" by (simp add: start_discipline)
    with h have "lock_discipline (w', ts')" by (blast intro: run_discipline)
    then show "(\<forall>i<length ts'. inside (ts' ! i) \<longrightarrow> clients_lock w') \<and>
      (\<forall>i<length ts'. \<forall>j<length ts'. inside (ts' ! i) \<and> inside (ts' ! j) \<longrightarrow> i = j)"
      unfolding lock_discipline_def fst_conv snd_conv by blast
  qed
  show ?thesis
    by (intro conjI a r wt f g sm rm bodies_lock_ok inv)
qed

theorem pool_lock_discipline_witness:
  "lock_ok False (todo (remover_and_finder ! 0)) \<and>
   lock_ok False (todo (remover_and_finder ! 1)) \<and>
   run [0, 0, 1] (world_abc, remover_and_finder) =
     Some (world_abc\<lparr>clients_lock := True,
                     objects := [shutdown session_a, session_b, session_c]\<rparr>,
           [\<lparr>todo = [Act (List_remove 0), Act Release], seen = []\<rparr>,
            \<lparr>todo = [], seen = [0, 1, 2]\<rparr>]) \<and>
   inside \<lparr>todo = [Act (List_remove 0), Act Release], seen = []\<rparr> \<and>
   clients_lock (world_abc\<lparr>clients_lock := True,
                          objects := [shutdown session_a, session_b, session_c]\<rparr>)"
proof -
  let ?w' = "world_abc\<lparr>clients_lock := True,
                     objects := [shutdown session_a, session_b, session_c]\<rparr>"
  let ?t0 = "\<lparr>todo = [Act (List_remove 0), Act Release], seen = []\<rparr>"
  let ?ts' = "[?t0, \<lparr>todo = [], seen = [0, 1, 2]\<rparr>]"
  have a: "lock_ok False (todo (remover_and_finder ! 0))"
    and b: "lock_ok False (todo (remover_and_finder ! 1))"
    by (simp_all add: remover_and_finder_def remove_client_body_def find_clients_by_tag_body_def)
  then have st: "list_all (\<lambda>t. lock_ok False (todo t)) remover_and_finder"
    by (simp add: remover_and_finder_def)
  have r: "run [0, 0, 1] (world_abc, remover_and_finder) = Some (?w', ?ts')"
    by (simp add: sched_step_def tstep_def remover_and_finder_def remove_client_body_def
        find_clients_by_tag_body_def world_abc_def find_clients_by_tag_def found_list_def
        py_strip_def quote_chars_def)
  have i: "inside ?t0" by (simp add: inside_def)
  note t = pool_lock_discipline[of world_abc 0 "[]" "''*''" 0 remover_and_finder "[0, 0, 1]" ?w' ?ts']
  have inv: "list_all (\<lambda>t. lock_ok False (todo t)) remover_and_finder \<and>
      run [0, 0, 1] (world_abc, remover_and_finder) = Some (?w', ?ts') \<longrightarrow>
      (\<forall>i<length ?ts'. inside (?ts' ! i) \<longrightarrow> clients_lock ?w') \<and>
      (\<forall>i<length ?ts'. \<forall>j<length ?ts'. inside (?ts' ! i) \<and> inside (?ts' ! j) \<longrightarrow> i = j)"
    using t by (elim conjE)
  from inv[THEN mp, OF conjI[OF st r], THEN conjunct1]
  have "0 < length ?ts' \<longrightarrow> inside (?ts' ! 0) \<longrightarrow> clients_lock ?w'"
    by (rule spec)
  then have l: "clients_lock ?w'" using i by simp
  show ?thesis by (intro conjI a b r i l)
qed

text \<open>
  As the specification states it, the property fails.  While the caller of \<open>remove_client\<close>
  is inside and holds the lock, having shut the first session down and not yet taken it
  from the list, the caller of \<open>find_clients_by_tag\<close> takes its step and gets the pool
  with that session still in it.  And while the lock is held, \<open>send_message_by_tag\<close>
  runs to its end and has put the message in the queues of the sessions tagged \<open>web\<close>.
\<close>

theorem registry_lock_counterexample:
  "run [0, 0, 1] (world_abc, remover_and_finder) =
     Some (world_abc\<lparr>clients_lock := True,
                     objects := [shutdown session_a, session_b, session_c]\<rparr>,
           [\<lparr>todo = [Act (List_remove 0), Act Release], seen = []\<rparr>,
            \<lparr>todo = [], seen = [0, 1, 2]\<rparr>]) \<and>
   inside \<lparr>todo = [Act (List_remove 0), Act Release], seen = []\<rparr> \<and>
   keep_alive (shutdown session_a) = False \<and>
   clients_lock world_abc_locked \<and>
   run [0, 0, 0, 0, 0, 0] (world_abc_locked, sender) =
     Some (snd (send_message_by_tag world_abc_locked ''web'' 0), [\<lparr>todo = [], seen = []\<rparr>]) \<and>
   send_queue (objects (snd (send_message_by_tag world_abc_locked ''web'' 0)) ! 0) = [0] \<and>
   send_queue (objects (snd (send_message_by_tag world_abc_locked ''web'' 0)) ! 1) = [0]"
proof -
  have r: "run [0, 0, 1] (world_abc, remover_and_finder) =
     Some (world_abc\<lparr>clients_lock := True,
                     objects := [shutdown session_a, session_b, session_c]\<rparr>,
           [\<lparr>todo = [Act (List_remove 0), Act Release], seen = []\<rparr>,
            \<lparr>todo = [], seen = [0, 1, 2]\<rparr>])"
    by (simp add: sched_step_def tstep_def remover_and_finder_def remove_client_body_def
        find_clients_by_tag_body_def world_abc_def find_clients_by_tag_def found_list_def
        py_strip_def quote_chars_def)
  have i: "inside \<lparr>todo = [Act (List_remove 0), Act Release], seen = []\<rparr>"
    by (simp add: inside_def)
  have k: "keep_alive (shutdown session_a) = False" by (simp add: shutdown_def)
  have l: "clients_lock world_abc_locked" by (simp add: world_abc_locked_def)
  have f: "found_list world_abc_locked (find_clients_by_tag world_abc_locked ''web'') = [0, 1]"
    by code_simp
  have "run (replicate (2 * length (found_list world_abc_locked
          (find_clients_by_tag world_abc_locked ''web'')) + 2) 0)
       (world_abc_locked, [\<lparr>todo = send_message_by_tag_body ''web'' 0, seen = []\<rparr>]) =
     Some (snd (send_message_by_tag world_abc_locked ''web'' 0), [\<lparr>todo = [], seen = []\<rparr>])"
    by (rule send_message_by_tag_body_run)
  then have s: "run [0, 0, 0, 0, 0, 0] (world_abc_locked, sender) =
     Some (snd (send_message_by_tag world_abc_locked ''web'' 0), [\<lparr>todo = [], seen = []\<rparr>])"
    by (simp add: f sender_def numeral_eq_Suc)
  have q0: "send_queue (objects (snd (send_message_by_tag world_abc_locked ''web'' 0)) ! 0) = [0]"
    by code_simp
  have q1: "send_queue (objects (snd (send_message_by_tag world_abc_locked ''web'' 0)) ! 1) = [0]"
    by code_simp
  show ?thesis by (intro conjI r i k l s q0 q1)
qed

end
